theory Spec2Isabelle
  imports Complex_Main "HOL-Library.Word"
begin

section \<open>Types shared by the compiler\<close>

text \<open>
  Modelled from the spec: the types of the namespace \<open>types\<close> that the compiler uses
  (\<open>int_t\<close>, \<open>float_t\<close>, \<open>reg_t\<close>, \<open>opcode_t\<close>) are declared in none of the repository's
  source files (\<open>compiler.h\<close> includes an \<open>ast.h\<close>, and \<open>vm.h\<close> an \<open>opcode.h\<close>, that are
  missing). The spec gives the widths: the move-word-immediate record is one
  opcode byte, one destination register byte and a 4-byte signed integer.

  \<^item> \<open>int_t\<close> is a 4-byte signed integer. Its values are mathematical integers here; an
    arithmetic result outside the 32-bit signed range is signed overflow, which C++
    leaves undefined, and is reported as \<open>UndefinedBehaviour\<close>.
  \<^item> \<open>reg_t\<close> and \<open>opcode_t\<close> are single bytes.
  \<^item> \<open>float_t\<close> is a type parameter \<open>'f\<close>; its arithmetic (conversion from an integer,
    \<open>+\<close>, \<open>*\<close>, \<open>/\<close>) is the record \<open>float_ops\<close>, a parameter of the lexer.
\<close>

type_synonym int_t = int
type_synonym byte = "8 word"
type_synonym reg_t = byte
type_synonym opcode_t = byte

definition in_int_t :: "int \<Rightarrow> bool" where
  "in_int_t v = (- 2147483648 \<le> v \<and> v \<le> 2147483647)"

record 'f float_ops =
  of_int_f :: "int \<Rightarrow> 'f"
  fadd :: "'f \<Rightarrow> 'f \<Rightarrow> 'f"
  fmul :: "'f \<Rightarrow> 'f \<Rightarrow> 'f"
  fdiv :: "'f \<Rightarrow> 'f \<Rightarrow> 'f"

text \<open>MAX\_STR\_SIZE: maximum number of characters in a string to be parsed.\<close>

definition MAX_STR_SIZE :: nat where
  "MAX_STR_SIZE = 1024"

subsection \<open>Exceptions\<close>

datatype ErrorType =
  UNKNOWN
  | STRING_TOO_LONG
  | INVALID_NUMBER
  | INVALID_CLOSING_PAREN
  | INVALID_CLOSING_SQUARE
  | INVALID_CLOSING_CURLY
  | MISSING_CLOSING_PAREN
  | MISSING_CLOSING_SQUARE
  | MISSING_CLOSING_CURLY
  | BINOP_MISSING_EXPRESSION
  | BINOP_ILLEGAL_PATTERN
  | OUT_OF_REGISTERS

text \<open>
  A \<open>CompilerException\<close> carries \<open>eType\<close>, \<open>line\<close> and \<open>column\<close>; the compiler never passes
  the optional \<open>extra\<close> text. A run of the compiler either throws one, or does something
  C++ leaves undefined (an out-of-range array write, signed overflow, dereferencing
  the end of an empty list), or returns.
\<close>

datatype CompilerException = CompilerException ErrorType int int

datatype failure = Throw CompilerException | UndefinedBehaviour

abbreviation throw :: "ErrorType \<Rightarrow> int \<Rightarrow> int \<Rightarrow> failure + 'a" where
  "throw e l c \<equiv> Inl (Throw (CompilerException e l c))"

section \<open>Tokens\<close>

text \<open>
  \<open>enum class TokenType\<close>. The lexer computes token kinds by integer arithmetic
  (\<open>static_cast<TokenType>(token1Index)\<close>, \<open>i + firstToken2\<close>, \<open>keyword + firstKeyword\<close>), so
  a token kind is its underlying integer and the enumerators are names for the values
  the declaration order gives them (the keyword kind \<open>CHAR_\<close> is \<open>T_CHAR_KW\<close>).
\<close>

type_synonym TokenType = int

abbreviation (input) T_IDENTIFIER :: TokenType where "T_IDENTIFIER \<equiv> 0"
abbreviation (input) T_STRING :: TokenType where "T_STRING \<equiv> 1"
abbreviation (input) T_CHAR :: TokenType where "T_CHAR \<equiv> 2"
abbreviation (input) T_TILDE :: TokenType where "T_TILDE \<equiv> 3"
abbreviation (input) T_BTICK :: TokenType where "T_BTICK \<equiv> 4"
abbreviation (input) T_EXPT :: TokenType where "T_EXPT \<equiv> 5"
abbreviation (input) T_AT :: TokenType where "T_AT \<equiv> 6"
abbreviation (input) T_HASH :: TokenType where "T_HASH \<equiv> 7"
abbreviation (input) T_DOLLAR :: TokenType where "T_DOLLAR \<equiv> 8"
abbreviation (input) T_PCT :: TokenType where "T_PCT \<equiv> 9"
abbreviation (input) T_CARET :: TokenType where "T_CARET \<equiv> 10"
abbreviation (input) T_AMP :: TokenType where "T_AMP \<equiv> 11"
abbreviation (input) T_STAR :: TokenType where "T_STAR \<equiv> 12"
abbreviation (input) T_USCORE :: TokenType where "T_USCORE \<equiv> 13"
abbreviation (input) T_DASH :: TokenType where "T_DASH \<equiv> 14"
abbreviation (input) T_PLUS :: TokenType where "T_PLUS \<equiv> 15"
abbreviation (input) T_EQUALS :: TokenType where "T_EQUALS \<equiv> 16"
abbreviation (input) T_PIPE :: TokenType where "T_PIPE \<equiv> 17"
abbreviation (input) T_BSLASH :: TokenType where "T_BSLASH \<equiv> 18"
abbreviation (input) T_COLON :: TokenType where "T_COLON \<equiv> 19"
abbreviation (input) T_SEMICOLON :: TokenType where "T_SEMICOLON \<equiv> 20"
abbreviation (input) T_DBLQUOTE :: TokenType where "T_DBLQUOTE \<equiv> 21"
abbreviation (input) T_QUOTE :: TokenType where "T_QUOTE \<equiv> 22"
abbreviation (input) T_COMMA :: TokenType where "T_COMMA \<equiv> 23"
abbreviation (input) T_PERIOD :: TokenType where "T_PERIOD \<equiv> 24"
abbreviation (input) T_QMARK :: TokenType where "T_QMARK \<equiv> 25"
abbreviation (input) T_SLASH :: TokenType where "T_SLASH \<equiv> 26"
abbreviation (input) T_LEFT_PAREN :: TokenType where "T_LEFT_PAREN \<equiv> 27"
abbreviation (input) T_RIGHT_PAREN :: TokenType where "T_RIGHT_PAREN \<equiv> 28"
abbreviation (input) T_LEFT_SQUARE :: TokenType where "T_LEFT_SQUARE \<equiv> 29"
abbreviation (input) T_RIGHT_SQUARE :: TokenType where "T_RIGHT_SQUARE \<equiv> 30"
abbreviation (input) T_LEFT_CURLY :: TokenType where "T_LEFT_CURLY \<equiv> 31"
abbreviation (input) T_RIGHT_CURLY :: TokenType where "T_RIGHT_CURLY \<equiv> 32"
abbreviation (input) T_LEFT_ANGLE :: TokenType where "T_LEFT_ANGLE \<equiv> 33"
abbreviation (input) T_RIGHT_ANGLE :: TokenType where "T_RIGHT_ANGLE \<equiv> 34"
abbreviation (input) T_PLUS_EQUALS :: TokenType where "T_PLUS_EQUALS \<equiv> 35"
abbreviation (input) T_DASH_EQUALS :: TokenType where "T_DASH_EQUALS \<equiv> 36"
abbreviation (input) T_STAR_EQUALS :: TokenType where "T_STAR_EQUALS \<equiv> 37"
abbreviation (input) T_SLASH_EQUALS :: TokenType where "T_SLASH_EQUALS \<equiv> 38"
abbreviation (input) T_PCT_EQUALS :: TokenType where "T_PCT_EQUALS \<equiv> 39"
abbreviation (input) T_EQ_EQUALS :: TokenType where "T_EQ_EQUALS \<equiv> 40"
abbreviation (input) T_LEFT_ANGLE_EQUALS :: TokenType where "T_LEFT_ANGLE_EQUALS \<equiv> 41"
abbreviation (input) T_RIGHT_ANGLE_EQUALS :: TokenType where "T_RIGHT_ANGLE_EQUALS \<equiv> 42"
abbreviation (input) T_PLUS_PLUS :: TokenType where "T_PLUS_PLUS \<equiv> 43"
abbreviation (input) T_DASH_DASH :: TokenType where "T_DASH_DASH \<equiv> 44"
abbreviation (input) T_SLASH_SLASH :: TokenType where "T_SLASH_SLASH \<equiv> 45"
abbreviation (input) T_SLASH_STAR :: TokenType where "T_SLASH_STAR \<equiv> 46"
abbreviation (input) T_STAR_SLASH :: TokenType where "T_STAR_SLASH \<equiv> 47"
abbreviation (input) T_INT :: TokenType where "T_INT \<equiv> 48"
abbreviation (input) T_FLOAT :: TokenType where "T_FLOAT \<equiv> 49"
abbreviation (input) T_BOOL :: TokenType where "T_BOOL \<equiv> 50"
abbreviation (input) T_CHAR_KW :: TokenType where "T_CHAR_KW \<equiv> 51"
abbreviation (input) T_RETURN :: TokenType where "T_RETURN \<equiv> 52"
abbreviation (input) T_WHILE :: TokenType where "T_WHILE \<equiv> 53"
abbreviation (input) T_FOR :: TokenType where "T_FOR \<equiv> 54"
abbreviation (input) T_IF :: TokenType where "T_IF \<equiv> 55"
abbreviation (input) T_ELSE :: TokenType where "T_ELSE \<equiv> 56"
abbreviation (input) T_ELIF :: TokenType where "T_ELIF \<equiv> 57"
abbreviation (input) T_AND :: TokenType where "T_AND \<equiv> 58"
abbreviation (input) T_OR :: TokenType where "T_OR \<equiv> 59"
abbreviation (input) T_TRUE :: TokenType where "T_TRUE \<equiv> 60"
abbreviation (input) T_FALSE :: TokenType where "T_FALSE \<equiv> 61"
abbreviation (input) T_NUM_UNIDENTIFIED :: TokenType where "T_NUM_UNIDENTIFIED \<equiv> 62"
abbreviation (input) T_NUM_INT :: TokenType where "T_NUM_INT \<equiv> 63"
abbreviation (input) T_NUM_FLOAT :: TokenType where "T_NUM_FLOAT \<equiv> 64"

text \<open>
  Token1s are length-1 tokens, token2s length-2 tokens, keywords full strings (the
  array \<open>keywords\<close> is \<open>keyword_table\<close> here).
\<close>

definition firstToken1 :: int where
  "firstToken1 = T_TILDE"

definition token1s :: "char list" where
  "token1s =
     [CHR ''~'', CHR 0x60, CHR ''!'', CHR ''@'', CHR ''#'', CHR ''$'', CHR ''%'',
      CHR ''^'', CHR ''&'', CHR ''*'', CHR ''_'', CHR ''-'', CHR ''+'', CHR ''='',
      CHR ''|'', CHR 0x5C, CHR '':'', CHR '';'', CHR 0x22, CHR 0x27, CHR '','',
      CHR ''.'', CHR ''?'', CHR ''/'',
      CHR ''('', CHR '')'', CHR ''['', CHR '']'', CHR ''{'', CHR ''}'', CHR ''<'',
      CHR ''>'']"

definition firstToken2 :: int where
  "firstToken2 = T_PLUS_EQUALS"

definition token2s :: "(TokenType \<times> char) list" where
  "token2s =
     [(T_PLUS, CHR ''=''), (T_DASH, CHR ''=''), (T_STAR, CHR ''=''),
      (T_SLASH, CHR ''=''), (T_PCT, CHR ''=''), (T_EQUALS, CHR ''=''),
      (T_LEFT_ANGLE, CHR ''=''), (T_RIGHT_ANGLE, CHR ''=''),
      (T_PLUS, CHR ''+''), (T_DASH, CHR ''-''),
      (T_SLASH, CHR ''/''), (T_SLASH, CHR ''*''), (T_STAR, CHR ''/'')]"

definition firstKeyword :: int where
  "firstKeyword = T_INT"

definition keyword_table :: "string list" where
  "keyword_table =
     [''int'', ''float'', ''bool'', ''char'', ''return'', ''while'', ''for'', ''if'',
      ''else'', ''elif'', ''and'', ''or'', ''true'', ''false'']"

text \<open>
  \<open>struct NoDestructToken\<close>. The anonymous union of the struct is the sum \<open>payload\<close>:
  no data (the constructor without a string stores a null pointer), an owned string,
  an \<open>int_t\<close> or a \<open>float_t\<close>.
\<close>

datatype 'f payload = NoData | StrData string | IntData int_t | FloatData 'f

record 'f NoDestructToken =
  type :: TokenType
  hasStr :: bool
  line :: int
  column :: int
  data :: "'f payload"

definition Token :: "TokenType \<Rightarrow> int \<Rightarrow> int \<Rightarrow> 'f NoDestructToken" where
  "Token typeIn lineIn columnIn =
     \<lparr>type = typeIn, hasStr = False, line = lineIn, column = columnIn, data = NoData\<rparr>"

definition TokenStr :: "TokenType \<Rightarrow> int \<Rightarrow> int \<Rightarrow> string \<Rightarrow> 'f NoDestructToken" where
  "TokenStr typeIn lineIn columnIn strIn =
     \<lparr>type = typeIn, hasStr = True, line = lineIn, column = columnIn, data = StrData strIn\<rparr>"

section \<open>Characters\<close>

text \<open>
  The value of a \<open>char\<close> in a comparison or a subtraction. \<open>char\<close> is taken as signed
  (the lexer initialises \<open>char c = -1\<close>); every range test below gives the same answer
  for an unsigned \<open>char\<close>.
\<close>

definition char_code :: "char \<Rightarrow> int" where
  "char_code ch = (if (of_char ch :: int) < 128 then of_char ch else of_char ch - 256)"

definition in_range :: "char \<Rightarrow> char \<Rightarrow> char \<Rightarrow> bool" where
  "in_range lo ch hi = (char_code lo \<le> char_code ch \<and> char_code ch \<le> char_code hi)"

abbreviation (input) NUL :: char where "NUL \<equiv> CHR 0x00"
abbreviation (input) NEWLINE :: char where "NEWLINE \<equiv> CHR 0x0A"
abbreviation (input) TAB :: char where "TAB \<equiv> CHR 0x09"
abbreviation (input) ESC :: char where "ESC \<equiv> CHR 0x1B"
abbreviation (input) DQUOTE :: char where "DQUOTE \<equiv> CHR 0x22"
abbreviation (input) BACKSLASH :: char where "BACKSLASH \<equiv> CHR 0x5C"

text \<open>
  A C string in memory is the list of the characters from the pointer on; reading
  at the end of the list reads the terminating NUL.
\<close>

fun peek :: "string \<Rightarrow> char" where
  "peek [] = NUL"
| "peek (ch # cs) = ch"

section \<open>Number Parser\<close>

text \<open>
  The three digit branches of both loops of \<open>parseNumber\<close>: the digit value of a
  character (\<open>c - '0'\<close>, \<open>c - 'A' + 10\<close>, \<open>c - 'a' + 10\<close>), or none when the character is
  not alphanumeric.
\<close>

definition digit_of :: "char \<Rightarrow> int option" where
  "digit_of ch =
     (if in_range (CHR ''0'') ch (CHR ''9'') then Some (char_code ch - char_code (CHR ''0''))
      else if in_range (CHR ''A'') ch (CHR ''Z'') then Some (char_code ch - char_code (CHR ''A'') + 10)
      else if in_range (CHR ''a'') ch (CHR ''z'') then Some (char_code ch - char_code (CHR ''a'') + 10)
      else None)"

text \<open>
  The inner loop (after the decimal point); the locals \<open>int_\<close> and \<open>float_\<close> are
  \<open>int_v\<close> and \<open>float_v\<close>. \<open>None\<close> is \<open>return 1\<close>; \<open>Some\<close> is the
  value of \<open>float_v\<close> when the loop ends.
\<close>

fun parse_fraction :: "'f float_ops \<Rightarrow> int_t \<Rightarrow> 'f \<Rightarrow> 'f \<Rightarrow> string \<Rightarrow> 'f option" where
  "parse_fraction F base float_v factor [] = Some float_v"
| "parse_fraction F base float_v factor (ch # cs) =
     (if ch = NUL then Some float_v
      else
        (let factor1 = fmul F factor (of_int_f F base) in
         case digit_of ch of
           None \<Rightarrow> None
         | Some d \<Rightarrow>
             if d \<ge> base then None
             else parse_fraction F base (fadd F float_v (fdiv F (of_int_f F d) factor1)) factor1 cs))"

text \<open>
  The outer loop. \<open>Inr None\<close> is \<open>return 1\<close>, \<open>Inr (Some v)\<close> the number that replaces
  the token's string, \<open>Inl UndefinedBehaviour\<close> an overflow of \<open>int_v\<close>.
\<close>

fun parse_digits :: "'f float_ops \<Rightarrow> int_t \<Rightarrow> int_t \<Rightarrow> string \<Rightarrow> failure + 'f payload option" where
  "parse_digits F base int_v [] = Inr (Some (IntData int_v))"
| "parse_digits F base int_v (ch # cs) =
     (if ch = NUL then Inr (Some (IntData int_v))
      else if ch = CHR ''.'' then
        Inr (map_option FloatData (parse_fraction F base (of_int_f F int_v) (of_int_f F 1) cs))
      else if \<not> in_int_t (int_v * base) then Inl UndefinedBehaviour
      else
        (case digit_of ch of
           None \<Rightarrow> Inr None
         | Some d \<Rightarrow>
             if d \<ge> base then Inr None
             else if \<not> in_int_t (int_v * base + d) then Inl UndefinedBehaviour
             else parse_digits F base (int_v * base + d) cs))"

text \<open>
  The base-setting pattern at the start: the base and the text left to parse, or
  \<open>None\<close> for the \<open>default: return 1\<close> of the switch.
\<close>

definition number_prefix :: "string \<Rightarrow> (int_t \<times> string) option" where
  "number_prefix str =
     (if peek str = CHR ''0'' then
        (let t = peek (tl str) in
         if char_code t < char_code (CHR ''0'') \<or> char_code t > char_code (CHR ''9'') then
           (if t = CHR ''x'' then Some (16, drop 2 str)
            else if t = CHR ''b'' then Some (2, drop 2 str)
            else if t = CHR ''.'' \<or> t = NUL then Some (10, drop 1 str)
            else if t = CHR ''d'' then Some (10, drop 2 str)
            else None)
         else Some (10, str))
      else Some (10, str))"

text \<open>
  \<open>parseNumber\<close> returns its \<open>int\<close> result together with the token, which it modifies
  in place when it succeeds.
\<close>

definition parseNumber :: "'f float_ops \<Rightarrow> 'f NoDestructToken \<Rightarrow> failure + (int \<times> 'f NoDestructToken)" where
  "parseNumber F token =
     (if type token \<noteq> T_NUM_UNIDENTIFIED then Inr (1, token)
      else
        (case data token of
           StrData str \<Rightarrow>
             (if peek str = NUL then Inr (1, token)
              else
                (case number_prefix str of
                   None \<Rightarrow> Inr (1, token)
                 | Some (base, str1) \<Rightarrow>
                     (case parse_digits F base 0 str1 of
                        Inl u \<Rightarrow> Inl u
                      | Inr None \<Rightarrow> Inr (1, token)
                      | Inr (Some (FloatData float_v)) \<Rightarrow>
                          Inr (0, token\<lparr>hasStr := False, data := FloatData float_v, type := T_NUM_FLOAT\<rparr>)
                      | Inr (Some v) \<Rightarrow>
                          Inr (0, token\<lparr>hasStr := False, data := v, type := T_NUM_INT\<rparr>))))
         | _ \<Rightarrow> Inl UndefinedBehaviour))"

section \<open>Lexer\<close>

text \<open>
  The locals of \<open>tokenize\<close> that live across iterations of its loop. The locals \<open>c\<close>,
  \<open>line\<close> and \<open>column\<close> are \<open>cur_c\<close>, \<open>cur_line\<close> and \<open>cur_column\<close>. The working string
  \<open>char str[MAX_STR_SIZE + 1]\<close> is a function from index to character: the array is not
  initialised and keeps what earlier tokens wrote, and \<open>strlen\<close> is also set without
  writing (block comments), so stale cells can be read back. \<open>end\<close> is set from the
  stream at the start of every iteration and is an argument of the loop body;
  \<open>i\<close>, \<open>token2Index\<close> and \<open>keyword\<close> are assigned before every use.
\<close>

record 'f tokenize_locals =
  tokenList :: "'f NoDestructToken list"
  str :: "nat \<Rightarrow> char"
  strlen :: nat
  cur_c :: char
  cur_line :: int
  cur_column :: int
  isComment :: bool
  isBlockComment :: bool
  isStr :: bool
  isEscaped :: bool
  isNumber :: bool
  hasDecimal :: bool
  token1Index :: int

text \<open>\<open>str[strlen++] = c\<close>; a write past the array is undefined.\<close>

definition add_char :: "'f tokenize_locals \<Rightarrow> failure + 'f tokenize_locals" where
  "add_char s =
     (if strlen s < MAX_STR_SIZE + 1
      then Inr (s\<lparr>str := (str s)(strlen s := cur_c s), strlen := strlen s + 1\<rparr>)
      else Inl UndefinedBehaviour)"

text \<open>\<open>str[strlen] = '\0'\<close>.\<close>

definition terminate_str :: "'f tokenize_locals \<Rightarrow> failure + 'f tokenize_locals" where
  "terminate_str s =
     (if strlen s < MAX_STR_SIZE + 1
      then Inr (s\<lparr>str := (str s)(strlen s := NUL)\<rparr>)
      else Inl UndefinedBehaviour)"

text \<open>\<open>new std::string(str)\<close>: the characters of the array up to the first NUL.\<close>

fun c_string_from :: "(nat \<Rightarrow> char) \<Rightarrow> nat \<Rightarrow> nat \<Rightarrow> string" where
  "c_string_from buf i 0 = []"
| "c_string_from buf i (Suc n) =
     (if buf i = NUL then [] else buf i # c_string_from buf (Suc i) n)"

definition c_string :: "(nat \<Rightarrow> char) \<Rightarrow> string" where
  "c_string buf = c_string_from buf 0 (MAX_STR_SIZE + 1)"

text \<open>The search loops over \<open>token1s\<close> and \<open>token2s\<close>; \<open>-1\<close> when nothing matches.\<close>

fun find_token1 :: "char \<Rightarrow> char list \<Rightarrow> int \<Rightarrow> int" where
  "find_token1 ch [] i = - 1"
| "find_token1 ch (t # ts) i =
     (if ch = t then i + firstToken1 else find_token1 ch ts (i + 1))"

fun find_token2 :: "int \<Rightarrow> char \<Rightarrow> (TokenType \<times> char) list \<Rightarrow> int \<Rightarrow> int" where
  "find_token2 t1 ch [] i = - 1"
| "find_token2 t1 ch (p # ps) i =
     (if ch = snd p \<and> t1 = fst p then i + firstToken2 else find_token2 t1 ch ps (i + 1))"

text \<open>
  Modelled from the spec: \<open>stringMatchAt\<close> is declared in \<open>utils.h\<close> and defined in none
  of the repository's source files. The buffered text is matched against the keyword
  table, exactly and case-sensitively; the result is the index of the match, negative
  when there is none.
\<close>

fun stringMatchAt :: "string \<Rightarrow> string list \<Rightarrow> int \<Rightarrow> int" where
  "stringMatchAt match [] i = - 1"
| "stringMatchAt match (k # ks) i =
     (if match = k then i else stringMatchAt match ks (i + 1))"

subsection \<open>Inside a string literal\<close>

definition string_add :: "'f tokenize_locals \<Rightarrow> failure + 'f tokenize_locals" where
  "string_add s =
     (if strlen s \<ge> MAX_STR_SIZE then throw STRING_TOO_LONG (cur_line s) (cur_column s)
      else add_char s)"

definition tokenize_string :: "'f tokenize_locals \<Rightarrow> failure + 'f tokenize_locals" where
  "tokenize_string s =
     (if isEscaped s then
        string_add
          ((if cur_c s = CHR ''n'' then s\<lparr>cur_c := NEWLINE, cur_line := cur_line s - 1\<rparr>
            else if cur_c s = CHR ''c'' then s\<lparr>cur_c := ESC\<rparr>
            else if cur_c s = CHR ''0'' then s\<lparr>cur_c := NUL\<rparr>
            else if cur_c s = CHR ''t'' then s\<lparr>cur_c := TAB\<rparr>
            else s)\<lparr>isEscaped := False\<rparr>)
      else if cur_c s = DQUOTE then
        (case terminate_str (s\<lparr>isStr := False\<rparr>) of
           Inl u \<Rightarrow> Inl u
         | Inr s1 \<Rightarrow>
             Inr (s1\<lparr>tokenList :=
                        tokenList s1 @
                          [TokenStr T_STRING (cur_line s1) (cur_column s1) (c_string (str s1))],
                      token1Index := - 1, strlen := 0\<rparr>))
      else if cur_c s = BACKSLASH then Inr (s\<lparr>isEscaped := True\<rparr>)
      else string_add s)"

subsection \<open>At the end of a token\<close>

text \<open>The body of \<open>if (strlen != 0)\<close>: the buffered text becomes a token.\<close>

definition finish_token :: "'f float_ops \<Rightarrow> 'f tokenize_locals \<Rightarrow> failure + 'f tokenize_locals" where
  "finish_token F s =
     (case terminate_str s of
        Inl u \<Rightarrow> Inl u
      | Inr s1 \<Rightarrow>
          if isNumber s1 then
            (case parseNumber F
                    (TokenStr T_NUM_UNIDENTIFIED (cur_line s1) (cur_column s1) (c_string (str s1))) of
               Inl u \<Rightarrow> Inl u
             | Inr (rc, token) \<Rightarrow>
                 if rc \<noteq> 0 then throw INVALID_NUMBER (cur_line s1) (cur_column s1)
                 else Inr (s1\<lparr>tokenList := tokenList s1 @ [token]\<rparr>))
          else
            (let keyword = stringMatchAt (c_string (str s1)) keyword_table 0 in
             if keyword \<ge> 0 then
               Inr (s1\<lparr>tokenList :=
                          tokenList s1 @ [Token (keyword + firstKeyword) (cur_line s1) (cur_column s1)]\<rparr>)
             else
               Inr (s1\<lparr>tokenList :=
                          tokenList s1 @
                            [TokenStr T_IDENTIFIER (cur_line s1) (cur_column s1) (c_string (str s1))]\<rparr>)))"

text \<open>
  From \<open>Check to see if the current char is a token1\<close> to the end of the loop body.
\<close>

definition tokenize_end_of_token ::
  "'f float_ops \<Rightarrow> bool \<Rightarrow> 'f tokenize_locals \<Rightarrow> failure + 'f tokenize_locals" where
  "tokenize_end_of_token F end_flag s0 =
     (let s = s0\<lparr>token1Index := find_token1 (cur_c s0) token1s 0\<rparr> in
      if token1Index s \<ge> 0 \<or> cur_c s = CHR '' '' \<or> cur_c s = NEWLINE \<or> cur_c s = TAB
         \<or> cur_c s = DQUOTE \<or> in_range (CHR ''0'') (cur_c s) (CHR ''9'') \<or> isNumber s
         \<or> end_flag
      then
        (case (if strlen s \<noteq> 0 then finish_token F s else Inr s) of
           Inl u \<Rightarrow> Inl u
         | Inr s1 \<Rightarrow>
             (let s2 = s1\<lparr>isNumber := False, strlen := 0\<rparr> in
              if cur_c s2 = DQUOTE then Inr (s2\<lparr>isStr := True, isEscaped := False\<rparr>)
              else if in_range (CHR ''0'') (cur_c s2) (CHR ''9'')
              then add_char (s2\<lparr>isNumber := True, hasDecimal := False\<rparr>)
              else Inr s2))
      else if strlen s \<ge> MAX_STR_SIZE then throw STRING_TOO_LONG (cur_line s) (cur_column s)
      else add_char s)"

text \<open>
  From \<open>If the PREVIOUS token was matched a token1\<close> on. In the source the \<open>else\<close> that
  adds the token2 to the list belongs to the second \<open>if\<close> (the test for \<open>SLASH_STAR\<close>)
  only.
\<close>

definition tokenize_token ::
  "'f float_ops \<Rightarrow> bool \<Rightarrow> 'f tokenize_locals \<Rightarrow> failure + 'f tokenize_locals" where
  "tokenize_token F end_flag s =
     (if token1Index s \<ge> 0 then
        (let token2Index = find_token2 (token1Index s) (cur_c s) token2s 0 in
         if token2Index \<ge> 0 then
           (let s1 = (if token2Index = T_SLASH_SLASH then s\<lparr>isComment := True\<rparr> else s);
                s2 = (if token2Index = T_SLASH_STAR then s1\<lparr>isBlockComment := True\<rparr>
                      else s1\<lparr>tokenList :=
                                tokenList s1 @ [Token token2Index (cur_line s1) (cur_column s1)]\<rparr>)
            in Inr (s2\<lparr>token1Index := - 1, strlen := 0\<rparr>))
         else
           tokenize_end_of_token F end_flag
             (s\<lparr>tokenList :=
                  tokenList s @ [Token (token1Index s) (cur_line s) (cur_column s)]\<rparr>))
      else tokenize_end_of_token F end_flag s)"

subsection \<open>The loop\<close>

text \<open>The body of the loop after the character has been read.\<close>

definition tokenize_body ::
  "'f float_ops \<Rightarrow> bool \<Rightarrow> 'f tokenize_locals \<Rightarrow> failure + 'f tokenize_locals" where
  "tokenize_body F end_flag s =
     (if isStr s then tokenize_string s
      else if isBlockComment s then
        Inr (if strlen s = 1 \<and> cur_c s = CHR ''/'' then s\<lparr>isBlockComment := False\<rparr>
             else if cur_c s = CHR ''*'' then s\<lparr>strlen := 1\<rparr>
             else s\<lparr>strlen := 0\<rparr>)
      else if isComment s then
        Inr (if cur_c s = NEWLINE then s\<lparr>isComment := False\<rparr> else s)
      else if isNumber s \<and> strlen s = 1 \<and> str s 0 = CHR ''0''
              \<and> (cur_c s = CHR ''x'' \<or> cur_c s = CHR ''b'')
      then add_char s
      else if isNumber s
              \<and> ((\<not> end_flag \<and> in_range (CHR ''0'') (cur_c s) (CHR ''9''))
                 \<or> in_range (CHR ''A'') (cur_c s) (CHR ''Z'')
                 \<or> in_range (CHR ''a'') (cur_c s) (CHR ''z'')
                 \<or> (cur_c s = CHR ''.'' \<and> \<not> hasDecimal s))
      then add_char (if cur_c s = CHR ''.'' then s\<lparr>hasDecimal := True\<rparr> else s)
      else tokenize_token F end_flag s)"

text \<open>Update char and file pos: the line and column follow the previous character.\<close>

definition advance :: "'f tokenize_locals \<Rightarrow> 'f tokenize_locals" where
  "advance s =
     (if cur_c s = NEWLINE then s\<lparr>cur_line := cur_line s + 1, cur_column := 0\<rparr>
      else s\<lparr>cur_column := cur_column s + 1\<rparr>)"

text \<open>
  \<open>while (!end)\<close> over the characters of the stream. \<open>file.get(c)\<close> stores the next
  character; at the end of the stream it fails, leaves \<open>c\<close> as it was and sets the
  end-of-file state, so the body runs once more on the last character with \<open>end\<close> set.
\<close>

fun tokenize_loop ::
  "'f float_ops \<Rightarrow> 'f tokenize_locals \<Rightarrow> string \<Rightarrow> failure + 'f tokenize_locals" where
  "tokenize_loop F s [] = tokenize_body F True (advance s)"
| "tokenize_loop F s (ch # file) =
     (case tokenize_body F False ((advance s)\<lparr>cur_c := ch\<rparr>) of
        Inl u \<Rightarrow> Inl u
      | Inr s1 \<Rightarrow> tokenize_loop F s1 file)"

text \<open>
  \<open>tokenize\<close> on the characters \<open>file\<close> of the input stream; \<open>garbage\<close> is the content of
  the uninitialised working string. The result is the token list (printing it to
  the diagnostics stream is not modelled).
\<close>

definition tokenize_init :: "(nat \<Rightarrow> char) \<Rightarrow> 'f tokenize_locals" where
  "tokenize_init garbage =
     \<lparr>tokenList = [], str = garbage, strlen = 0, cur_c = CHR 0xFF, cur_line = 0,
      cur_column = - 1, isComment = False, isBlockComment = False, isStr = False,
      isEscaped = False, isNumber = False, hasDecimal = False, token1Index = - 1\<rparr>"

definition tokenize :: "'f float_ops \<Rightarrow> (nat \<Rightarrow> char) \<Rightarrow> string \<Rightarrow> failure + 'f NoDestructToken list" where
  "tokenize F garbage file =
     (case tokenize_loop F (tokenize_init garbage) file of
        Inl u \<Rightarrow> Inl u
      | Inr s \<Rightarrow> Inr (tokenList s))"

section \<open>Abstract syntax tree\<close>

datatype NodeType =
  NT_NONE | NT_TOKEN | NT_PAREN_GROUP | NT_SQUARE_GROUP | NT_CURLY_GROUP | NT_IDENTIFIER
  | NT_INT | NT_FLOAT | NT_BOOL | NT_CHAR | NT_CAST | NT_BINOP

datatype ExprType = ET_UNKNOWN | ET_INT | ET_FLOAT | ET_BOOL | ET_CHAR

datatype OpType = ADD | SUB | MULT | DIV

text \<open>
  The subclasses of \<open>Expr\<close>, each with the \<open>line\<close> and \<open>column\<close> its constructor stores.
  A cast takes the position of its source, so it stores none of its own.
\<close>

datatype 'f Expr =
  ExprInt int_t int int
  | ExprFloat 'f int int
  | ExprBool bool int int
  | ExprChar char int int
  | ExprIdentifier string int int
  | ExprCast "'f Expr" ExprType
  | ExprBinop "'f Expr" "'f Expr" OpType ExprType int int

text \<open>
  The subclasses of \<open>Node\<close> a node list can hold. A \<open>NodeToken\<close> points at a token of
  the token list; the tokens it can point at while the tree is built are never
  modified, so it holds the token.
\<close>

datatype 'f Node =
  NodeToken "'f NoDestructToken"
  | NodeParenGroup "'f Node list"
  | NodeSquareGroup "'f Node list"
  | NodeCurlyGroup "'f Node list"
  | NodeExpr "'f Expr"

fun evalType :: "'f Expr \<Rightarrow> ExprType" where
  "evalType (ExprInt v l c) = ET_INT"
| "evalType (ExprFloat v l c) = ET_FLOAT"
| "evalType (ExprBool v l c) = ET_BOOL"
| "evalType (ExprChar v l c) = ET_CHAR"
| "evalType (ExprIdentifier v l c) = ET_UNKNOWN"
| "evalType (ExprCast source typeIn) = typeIn"
| "evalType (ExprBinop left right opType typeIn l c) = typeIn"

fun Expr_type :: "'f Expr \<Rightarrow> NodeType" where
  "Expr_type (ExprInt v l c) = NT_INT"
| "Expr_type (ExprFloat v l c) = NT_FLOAT"
| "Expr_type (ExprBool v l c) = NT_BOOL"
| "Expr_type (ExprChar v l c) = NT_CHAR"
| "Expr_type (ExprIdentifier v l c) = NT_IDENTIFIER"
| "Expr_type (ExprCast source typeIn) = NT_CAST"
| "Expr_type (ExprBinop left right opType typeIn l c) = NT_BINOP"

fun Expr_line :: "'f Expr \<Rightarrow> int" where
  "Expr_line (ExprInt v l c) = l"
| "Expr_line (ExprFloat v l c) = l"
| "Expr_line (ExprBool v l c) = l"
| "Expr_line (ExprChar v l c) = l"
| "Expr_line (ExprIdentifier v l c) = l"
| "Expr_line (ExprCast source typeIn) = Expr_line source"
| "Expr_line (ExprBinop left right opType typeIn l c) = l"

fun Expr_column :: "'f Expr \<Rightarrow> int" where
  "Expr_column (ExprInt v l c) = c"
| "Expr_column (ExprFloat v l c) = c"
| "Expr_column (ExprBool v l c) = c"
| "Expr_column (ExprChar v l c) = c"
| "Expr_column (ExprIdentifier v l c) = c"
| "Expr_column (ExprCast source typeIn) = Expr_column source"
| "Expr_column (ExprBinop left right opType typeIn l c) = c"

fun isExpr :: "'f Node \<Rightarrow> bool" where
  "isExpr (NodeExpr e) = True"
| "isExpr n = False"

text \<open>The group nodes are constructed with line and column \<open>-1\<close>.\<close>

fun Node_line :: "'f Node \<Rightarrow> int" where
  "Node_line (NodeToken t) = line t"
| "Node_line (NodeExpr e) = Expr_line e"
| "Node_line n = - 1"

fun Node_column :: "'f Node \<Rightarrow> int" where
  "Node_column (NodeToken t) = column t"
| "Node_column (NodeExpr e) = Expr_column e"
| "Node_column n = - 1"

section \<open>Binop Resolver\<close>

record ArithmeticBinopPattern =
  resultType :: ExprType
  aType :: ExprType
  bType :: ExprType

text \<open>The three constructors of \<open>ArithmeticBinopPattern\<close>.\<close>

definition Pattern3 :: "ExprType \<Rightarrow> ExprType \<Rightarrow> ExprType \<Rightarrow> ArithmeticBinopPattern" where
  "Pattern3 r a b = \<lparr>resultType = r, aType = a, bType = b\<rparr>"

definition Pattern2 :: "ExprType \<Rightarrow> ExprType \<Rightarrow> ArithmeticBinopPattern" where
  "Pattern2 a b = \<lparr>resultType = a, aType = a, bType = b\<rparr>"

definition Pattern1 :: "ExprType \<Rightarrow> ArithmeticBinopPattern" where
  "Pattern1 a = \<lparr>resultType = a, aType = a, bType = a\<rparr>"

definition arithmeticBinopPatterns :: "ArithmeticBinopPattern list" where
  "arithmeticBinopPatterns =
     [Pattern1 ET_INT,
      Pattern1 ET_FLOAT,
      Pattern1 ET_CHAR,
      Pattern2 ET_FLOAT ET_INT,
      Pattern2 ET_FLOAT ET_CHAR,
      Pattern2 ET_FLOAT ET_BOOL,
      Pattern2 ET_INT ET_CHAR,
      Pattern2 ET_INT ET_BOOL,
      Pattern2 ET_CHAR ET_BOOL,
      Pattern3 ET_INT ET_BOOL ET_BOOL]"

text \<open>
  The loop over the patterns: \<open>resultType\<close>, \<open>left\<close> and \<open>right\<close> when it ends. The first
  pattern that matches in either operand order sets the result type and wraps the
  operands whose type differs from it in a cast.
\<close>

fun match_patterns ::
  "'f Expr \<Rightarrow> 'f Expr \<Rightarrow> ArithmeticBinopPattern list \<Rightarrow> ExprType \<times> 'f Expr \<times> 'f Expr" where
  "match_patterns left right [] = (ET_UNKNOWN, left, right)"
| "match_patterns left right (pattern # patterns) =
     (if (evalType left = aType pattern \<and> evalType right = bType pattern)
         \<or> (evalType left = bType pattern \<and> evalType right = aType pattern)
      then
        (resultType pattern,
         (if evalType left \<noteq> resultType pattern then ExprCast left (resultType pattern) else left),
         (if evalType right \<noteq> resultType pattern then ExprCast right (resultType pattern) else right))
      else match_patterns left right patterns)"

text \<open>
  From the pattern loop to \<open>new ExprBinop\<close>, for the operator token at
  \<open>(lineIn, columnIn)\<close>.
\<close>

definition resolve_binop ::
  "OpType \<Rightarrow> int \<Rightarrow> int \<Rightarrow> 'f Expr \<Rightarrow> 'f Expr \<Rightarrow> failure + 'f Expr" where
  "resolve_binop opType lineIn columnIn left right =
     (case match_patterns left right arithmeticBinopPatterns of
        (resultType1, left1, right1) \<Rightarrow>
          if resultType1 = ET_UNKNOWN then throw BINOP_ILLEGAL_PATTERN lineIn columnIn
          else Inr (ExprBinop left1 right1 opType resultType1 lineIn columnIn))"

section \<open>AST Builder\<close>

subsection \<open>Precedence passes\<close>

text \<open>
  The two passes of \<open>process\<close> are the same loop over different operator tokens:
  \<open>STAR\<close> and \<open>SLASH\<close> in pass 1, \<open>PLUS\<close> and \<open>DASH\<close> in pass 2 (the first of each pair
  sets \<open>flag\<close>).
\<close>

definition pass1_op :: "TokenType \<Rightarrow> OpType option" where
  "pass1_op t = (if t = T_STAR then Some MULT else if t = T_SLASH then Some DIV else None)"

definition pass2_op :: "TokenType \<Rightarrow> OpType option" where
  "pass2_op t = (if t = T_PLUS then Some ADD else if t = T_DASH then Some SUB else None)"

text \<open>
  One pass over \<open>outputList\<close>: \<open>seen\<close> are the nodes before \<open>ptr\<close>, the third argument
  the nodes from \<open>ptr\<close> on. After a fold \<open>ptr\<close> stands on the new binop node and the loop
  advances past it.
\<close>

fun precedence_pass ::
  "(TokenType \<Rightarrow> OpType option) \<Rightarrow> 'f Node list \<Rightarrow> 'f Node list \<Rightarrow> failure + 'f Node list" where
  "precedence_pass ops seen [] = Inr seen"
| "precedence_pass ops seen (x # rest) =
     (case x of
        NodeToken t \<Rightarrow>
          (case ops (type t) of
             None \<Rightarrow> precedence_pass ops (seen @ [x]) rest
           | Some opType \<Rightarrow>
               (case rest of
                  [] \<Rightarrow> throw BINOP_MISSING_EXPRESSION (line t) (column t)
                | nxt # rest1 \<Rightarrow>
                    if seen = [] then throw BINOP_MISSING_EXPRESSION (line t) (column t)
                    else
                      (case (last seen, nxt) of
                         (NodeExpr left, NodeExpr right) \<Rightarrow>
                           (case resolve_binop opType (line t) (column t) left right of
                              Inl u \<Rightarrow> Inl u
                            | Inr binop \<Rightarrow>
                                precedence_pass ops (butlast seen @ [NodeExpr binop]) rest1)
                       | _ \<Rightarrow> throw BINOP_MISSING_EXPRESSION (line t) (column t))))
      | _ \<Rightarrow> precedence_pass ops (seen @ [x]) rest)"

definition process :: "'f Node list \<Rightarrow> failure + 'f Node list" where
  "process outputList =
     (case precedence_pass pass1_op [] outputList of
        Inl u \<Rightarrow> Inl u
      | Inr outputList1 \<Rightarrow> precedence_pass pass2_op [] outputList1)"

subsection \<open>Bracket grouping\<close>

text \<open>
  The first loop of \<open>condenseAST\<close> switches on six bracket tokens. The three opening
  cases are the same code up to the group node they build and the \<open>type\<close> they pass on
  (in the source: ``same logic as the parentheses''), and the three closing cases are
  the same code up to the kind they compare \<open>type\<close> with and the error they throw; the
  tables below name what differs.
\<close>

definition opening_kind :: "TokenType \<Rightarrow> NodeType option" where
  "opening_kind t =
     (if t = T_LEFT_PAREN then Some NT_PAREN_GROUP
      else if t = T_LEFT_SQUARE then Some NT_SQUARE_GROUP
      else if t = T_LEFT_CURLY then Some NT_CURLY_GROUP
      else None)"

definition closing_kind :: "TokenType \<Rightarrow> NodeType option" where
  "closing_kind t =
     (if t = T_RIGHT_PAREN then Some NT_PAREN_GROUP
      else if t = T_RIGHT_SQUARE then Some NT_SQUARE_GROUP
      else if t = T_RIGHT_CURLY then Some NT_CURLY_GROUP
      else None)"

text \<open>The error a closing bracket of kind \<open>k\<close> throws when \<open>type\<close> is not \<open>k\<close>.\<close>

fun INVALID_CLOSING :: "NodeType \<Rightarrow> ErrorType" where
  "INVALID_CLOSING NT_PAREN_GROUP = INVALID_CLOSING_PAREN"
| "INVALID_CLOSING NT_SQUARE_GROUP = INVALID_CLOSING_SQUARE"
| "INVALID_CLOSING NT_CURLY_GROUP = INVALID_CLOSING_CURLY"
| "INVALID_CLOSING k = UNKNOWN"

text \<open>The error the end of the list throws when \<open>type\<close> is \<open>k\<close>.\<close>

fun MISSING_CLOSING :: "NodeType \<Rightarrow> ErrorType" where
  "MISSING_CLOSING NT_PAREN_GROUP = MISSING_CLOSING_PAREN"
| "MISSING_CLOSING NT_SQUARE_GROUP = MISSING_CLOSING_SQUARE"
| "MISSING_CLOSING NT_CURLY_GROUP = MISSING_CLOSING_CURLY"
| "MISSING_CLOSING k = UNKNOWN"

text \<open>
  What replaces a bracketed span: a parenthesis group whose list is exactly one
  expression is replaced by that expression, every other group by its group node.
\<close>

fun group_node :: "NodeType \<Rightarrow> 'f Node list \<Rightarrow> 'f Node" where
  "group_node NT_PAREN_GROUP nodeList =
     (case nodeList of
        [n] \<Rightarrow> if isExpr n then n else NodeParenGroup nodeList
      | _ \<Rightarrow> NodeParenGroup nodeList)"
| "group_node NT_SQUARE_GROUP nodeList = NodeSquareGroup nodeList"
| "group_node k nodeList = NodeCurlyGroup nodeList"

definition is_group_kind :: "NodeType \<Rightarrow> bool" where
  "is_group_kind ty = (ty = NT_PAREN_GROUP \<or> ty = NT_SQUARE_GROUP \<or> ty = NT_CURLY_GROUP)"

text \<open>
  \<open>condenseAST inputList outputList start type\<close> up to the label \<open>process\<close>, and
  \<open>process\<close> itself. The input list is \<open>pre @ acc @ xs\<close>: \<open>pre\<close> are the nodes before
  \<open>start\<close>, \<open>acc\<close> the nodes from \<open>start\<close> up to \<open>ptr\<close>, \<open>xs\<close> the nodes from \<open>ptr\<close> on. The
  result is \<open>outputList\<close> after the two passes, and the nodes of the input list from
  \<open>ptr\<close> on when the function returns (the closing bracket first, after a group).

  At an opening bracket the function calls itself on the nodes after the bracket,
  inserts the group before the bracket, and erases the bracket and the node after it,
  which is the closing bracket; erasing at the end of the list is undefined. At the
  end of the list with a group open, \<open>ptr--\<close> steps back to the last node of the input
  list, whose position the error carries.

  The iterator \<open>start\<close> is a parameter passed by value, and it is valid only while the
  node it points at is in the list. \<open>inputList.erase(ptr, pptr)\<close> in the opening cases
  removes the opening bracket at \<open>ptr\<close>: when that bracket is the first node of the
  range (\<open>ptr == start\<close>, that is \<open>acc\<close> is empty), \<open>start\<close> points at an erased node from
  then on, which \<open>erased\<close> records. The only later uses of \<open>start\<close> are the calls
  \<open>outputList.splice(outputList.begin(), inputList, start, ptr)\<close>, at a closing bracket
  of the kind \<open>type\<close> and at the end of the list when \<open>type\<close> is \<open>NONE\<close>: with an erased
  \<open>start\<close> they are undefined. The \<open>throw\<close> statements read \<open>ptr\<close> only.
\<close>

function condenseAST ::
  "'f Node list \<Rightarrow> bool \<Rightarrow> 'f Node list \<Rightarrow> 'f Node list \<Rightarrow> NodeType \<Rightarrow>
     failure + ('f Node list \<times> 'f Node list)" where
  "condenseAST pre erased acc [] ty =
     (if ty = NT_NONE then
        (if erased then Inl UndefinedBehaviour
         else (case process acc of Inl u \<Rightarrow> Inl u | Inr outputList \<Rightarrow> Inr (outputList, [])))
      else if is_group_kind ty then
        (if pre @ acc = [] then Inl UndefinedBehaviour
         else throw (MISSING_CLOSING ty) (Node_line (last (pre @ acc))) (Node_column (last (pre @ acc))))
      else Inr ([], []))"
| "condenseAST pre erased acc (x # rest) ty =
     (case x of
        NodeToken t \<Rightarrow>
          (case opening_kind (type t) of
             Some k \<Rightarrow>
               (case condenseAST (pre @ acc @ [x]) False [] rest k of
                  Inl u \<Rightarrow> Inl u
                | Inr (nodeList, rest1) \<Rightarrow>
                    (case rest1 of
                       [] \<Rightarrow> Inl UndefinedBehaviour
                     | closing # rest2 \<Rightarrow>
                         condenseAST pre (erased \<or> acc = []) (acc @ [group_node k nodeList]) rest2 ty))
           | None \<Rightarrow>
               (case closing_kind (type t) of
                  Some k \<Rightarrow>
                    if ty = k then
                      (if erased then Inl UndefinedBehaviour
                       else (case process acc of
                               Inl u \<Rightarrow> Inl u
                             | Inr outputList \<Rightarrow> Inr (outputList, x # rest)))
                    else throw (INVALID_CLOSING k) (line t) (column t)
                | None \<Rightarrow> condenseAST pre erased (acc @ [x]) rest ty))
      | _ \<Rightarrow> condenseAST pre erased (acc @ [x]) rest ty)"
  by pat_completeness auto

lemma condenseAST_rest_length:
  "condenseAST_dom (pre, erased, acc, xs, ty) \<Longrightarrow> condenseAST pre erased acc xs ty = Inr (out, r) \<Longrightarrow>
     length r \<le> length xs"
proof (induct arbitrary: out r rule: condenseAST.pinduct)
  case (1 pre erased acc ty)
  then show ?case
    by (auto simp: condenseAST.psimps split: sum.splits if_splits)
next
  case (2 pre erased acc x rest ty)
  show ?case
  proof (cases x)
    case (NodeToken t)
    show ?thesis
    proof (cases "opening_kind (type t)")
      case (Some k)
      from "2.prems" "2.hyps"(1) NodeToken Some
      obtain nodeList closing rest2 where
        a: "condenseAST (pre @ acc @ [x]) False [] rest k = Inr (nodeList, closing # rest2)" and
        b: "condenseAST pre (erased \<or> acc = []) (acc @ [group_node k nodeList]) rest2 ty = Inr (out, r)"
        by (auto simp: condenseAST.psimps split: sum.splits list.splits)
      from "2.hyps"(3)[OF NodeToken Some a] have "length (closing # rest2) \<le> length rest" .
      moreover from "2.hyps"(4)[OF NodeToken Some a refl refl b]
      have "length r \<le> length rest2" .
      ultimately show ?thesis by simp
    next
      case None
      show ?thesis
      proof (cases "closing_kind (type t)")
        case (Some k)
        with "2.prems" "2.hyps"(1) NodeToken None show ?thesis
          by (auto simp: condenseAST.psimps split: sum.splits if_splits)
      next
        case cNone: None
        from "2.prems" "2.hyps"(1) NodeToken None cNone
        have "condenseAST pre erased (acc @ [x]) rest ty = Inr (out, r)"
          by (simp add: condenseAST.psimps)
        from "2.hyps"(2)[OF NodeToken None cNone this] show ?thesis by simp
      qed
    qed
  qed (use 2 in \<open>auto simp: condenseAST.psimps le_SucI\<close>)
qed

termination condenseAST
  apply (relation "measure (\<lambda>(pre, erased, acc, xs, ty). length xs)")
  apply (auto dest: condenseAST_rest_length)
  done

declare condenseAST.simps [simp del]

subsection \<open>Leaf promotion and \<open>constructAST\<close>\<close>

text \<open>
  The first pass of \<open>constructAST\<close> on one token. Reading a member of the token's
  union that is not the one stored is undefined.
\<close>

definition promote :: "'f NoDestructToken \<Rightarrow> failure + 'f Node" where
  "promote t =
     (if type t = T_NUM_INT then
        (case data t of
           IntData v \<Rightarrow> Inr (NodeExpr (ExprInt v (line t) (column t)))
         | _ \<Rightarrow> Inl UndefinedBehaviour)
      else if type t = T_NUM_FLOAT then
        (case data t of
           FloatData v \<Rightarrow> Inr (NodeExpr (ExprFloat v (line t) (column t)))
         | _ \<Rightarrow> Inl UndefinedBehaviour)
      else if type t = T_IDENTIFIER then
        (if \<not> hasStr t then throw UNKNOWN (line t) (column t)
         else
           (case data t of
              StrData v \<Rightarrow> Inr (NodeExpr (ExprIdentifier v (line t) (column t)))
            | _ \<Rightarrow> Inl UndefinedBehaviour))
      else if type t = T_TRUE then Inr (NodeExpr (ExprBool True (line t) (column t)))
      else if type t = T_FALSE then Inr (NodeExpr (ExprBool False (line t) (column t)))
      else Inr (NodeToken t))"

fun promote_all :: "'f NoDestructToken list \<Rightarrow> failure + 'f Node list" where
  "promote_all [] = Inr []"
| "promote_all (t # ts) =
     (case promote t of
        Inl u \<Rightarrow> Inl u
      | Inr n \<Rightarrow> (case promote_all ts of Inl u \<Rightarrow> Inl u | Inr ns \<Rightarrow> Inr (n # ns)))"

text \<open>
  \<open>constructAST\<close>: the output list. (Promoting an identifier also clears the string of
  its token in the token list, which nothing reads afterwards; printing the tree is
  not modelled.)
\<close>

definition constructAST :: "'f NoDestructToken list \<Rightarrow> failure + 'f Node list" where
  "constructAST tokens =
     (case promote_all tokens of
        Inl u \<Rightarrow> Inl u
      | Inr nodeList \<Rightarrow>
          (case condenseAST [] False [] nodeList NT_NONE of
             Inl u \<Rightarrow> Inl u
           | Inr (outputList, rest) \<Rightarrow> Inr outputList))"

section \<open>Register Allocator\<close>

text \<open>
  The constants of the virtual machine the emitter uses (\<open>opcode::MOV_W\<close>,
  \<open>register_::W0\<close>, \<open>register_::B0\<close>, \<open>register_::NUM_WORD_REGISTERS\<close>,
  \<open>register_::NUM_BYTE_REGISTERS\<close>) are declared in none of the repository's source
  files: they are the fields of a parameter \<open>K\<close>. \<open>ASM_WRITE\<close> copies the object
  representation of a value, so the byte order of the machine is a field too.
  \<open>freeWord\<close> and \<open>freeByte\<close> are never called and are left out.
\<close>

datatype byte_order = LittleEndian | BigEndian

record target =
  MOV_W :: opcode_t
  W0 :: int
  B0 :: int
  NUM_WORD_REGISTERS :: nat
  NUM_BYTE_REGISTERS :: nat
  order :: byte_order

record RegManager =
  wordsActive :: "bool list"
  bytesActive :: "bool list"

definition RegManager_new :: "target \<Rightarrow> RegManager" where
  "RegManager_new K =
     \<lparr>wordsActive = replicate (NUM_WORD_REGISTERS K) False,
      bytesActive = replicate (NUM_BYTE_REGISTERS K) False\<rparr>"

text \<open>The loop of \<open>getWord\<close> and \<open>getByte\<close>: the lowest index that is not active.\<close>

fun first_inactive :: "bool list \<Rightarrow> nat \<Rightarrow> nat option" where
  "first_inactive [] i = None"
| "first_inactive (a # as) i = (if \<not> a then Some i else first_inactive as (i + 1))"

definition getWord :: "target \<Rightarrow> RegManager \<Rightarrow> failure + (reg_t \<times> RegManager)" where
  "getWord K reg =
     (case first_inactive (wordsActive reg) 0 of
        Some i \<Rightarrow>
          Inr (word_of_int (int i + W0 K), reg\<lparr>wordsActive := (wordsActive reg)[i := True]\<rparr>)
      | None \<Rightarrow> throw OUT_OF_REGISTERS (- 1) (- 1))"

definition getByte :: "target \<Rightarrow> RegManager \<Rightarrow> failure + (reg_t \<times> RegManager)" where
  "getByte K reg =
     (case first_inactive (bytesActive reg) 0 of
        Some i \<Rightarrow>
          Inr (word_of_int (int i + B0 K), reg\<lparr>bytesActive := (bytesActive reg)[i := True]\<rparr>)
      | None \<Rightarrow> throw OUT_OF_REGISTERS (- 1) (- 1))"

section \<open>Bytecode Emitter\<close>

text \<open>
  The output stream and the running byte counter, which \<open>makeExprBytecode\<close> takes by
  reference.
\<close>

record emitted =
  outputFile :: "byte list"
  byteCounter :: int

text \<open>
  \<open>ASM_WRITE(thing, type)\<close> writes the \<open>sizeof(type)\<close> bytes of \<open>thing\<close> and adds
  \<open>sizeof(type)\<close> to the counter.
\<close>

definition ASM_WRITE :: "byte list \<Rightarrow> emitted \<Rightarrow> emitted" where
  "ASM_WRITE thing e =
     e\<lparr>outputFile := outputFile e @ thing, byteCounter := byteCounter e + int (length thing)\<rparr>"

text \<open>The four bytes of an \<open>int_t\<close> in two's complement, in the machine's byte order.\<close>

definition int_t_bytes :: "byte_order \<Rightarrow> int_t \<Rightarrow> byte list" where
  "int_t_bytes bo v =
     (let bs = [word_of_int v, word_of_int (v div 256), word_of_int (v div 65536),
                word_of_int (v div 16777216)]
      in case bo of LittleEndian \<Rightarrow> bs | BigEndian \<Rightarrow> rev bs)"

text \<open>
  \<open>makeExprBytecode\<close> takes the register manager by value: \<open>reg\<close> is the callee's own
  copy. The result is \<open>ridOut\<close>, the callee's copy of \<open>reg\<close> when it returns (which the
  caller never sees), and the stream and counter. One equation for each case of
  the switch; an identifier matches no case.
\<close>

fun makeExprBytecode ::
  "target \<Rightarrow> 'f Expr \<Rightarrow> RegManager \<Rightarrow> emitted \<Rightarrow> failure + (reg_t \<times> RegManager \<times> emitted)" where
  "makeExprBytecode K (ExprInt int_v l c) reg e =
     (case getWord K reg of
        Inl u \<Rightarrow> Inl u
      | Inr (ridOut, reg1) \<Rightarrow>
          Inr (ridOut, reg1,
               ASM_WRITE (int_t_bytes (order K) int_v)
                 (ASM_WRITE [ridOut] (ASM_WRITE [MOV_W K] e))))"
| "makeExprBytecode K (ExprFloat v l c) reg e = Inr (0, reg, e)"
| "makeExprBytecode K (ExprBool v l c) reg e = Inr (0, reg, e)"
| "makeExprBytecode K (ExprCast source typeIn) reg e = Inr (0, reg, e)"
| "makeExprBytecode K (ExprChar v l c) reg e = Inr (0, reg, e)"
| "makeExprBytecode K (ExprBinop left right opType typeIn l c) reg e = Inr (0, reg, e)"
| "makeExprBytecode K (ExprIdentifier v l c) reg e = Inr (0, reg, e)"

text \<open>
  The locals of \<open>makeBytecode\<close> when it returns, with the output stream. The function
  reads the first node of the list without testing that there is one.
\<close>

record makeBytecode_locals =
  reg :: RegManager
  rid1 :: reg_t
  written :: emitted

definition makeBytecode :: "target \<Rightarrow> 'f Node list \<Rightarrow> byte list \<Rightarrow> failure + makeBytecode_locals" where
  "makeBytecode K list outputFileIn =
     (let reg0 = RegManager_new K;
          e0 = \<lparr>outputFile = outputFileIn, byteCounter = 0\<rparr>
      in case list of
           [] \<Rightarrow> Inl UndefinedBehaviour
         | NodeExpr expr # ns \<Rightarrow>
             (case makeExprBytecode K expr reg0 e0 of
                Inl u \<Rightarrow> Inl u
              | Inr (ridOut, reg_copy, e1) \<Rightarrow> Inr \<lparr>reg = reg0, rid1 = ridOut, written = e1\<rparr>)
         | n # ns \<Rightarrow> Inr \<lparr>reg = reg0, rid1 = 0, written = e0\<rparr>)"

section \<open>The compiler\<close>

text \<open>
  \<open>compile_\<close> (here \<open>compile'\<close>): tokenize, construct the AST, make the bytecode. The source returns
  \<open>0\<close>; the result here is what \<open>makeBytecode\<close> leaves.
\<close>

definition compile' ::
  "'f float_ops \<Rightarrow> target \<Rightarrow> (nat \<Rightarrow> char) \<Rightarrow> string \<Rightarrow> byte list \<Rightarrow> failure + makeBytecode_locals" where
  "compile' F K garbage inputFile outputFileIn =
     (case tokenize F garbage inputFile of
        Inl u \<Rightarrow> Inl u
      | Inr tokens \<Rightarrow>
          (case constructAST tokens of
             Inl u \<Rightarrow> Inl u
           | Inr ast \<Rightarrow> makeBytecode K ast outputFileIn))"

section \<open>Definitions for the statements\<close>

subsection \<open>Bracket structure\<close>

text \<open>
  The bracket structure of a node list, following the spec's words rather than the
  code: ``every opener has a matching same-kind closer before end-of-input''. The scan
  keeps the stack of the kinds that are open. Its verdict is \<open>Balanced\<close>, or the first
  offence: a closing bracket that does not close the innermost open kind (with the
  kind and the position of that closing bracket), or the end of the input with a kind
  still open (with the innermost open kind).
\<close>

datatype verdict = Balanced | InvalidClosing NodeType int int | MissingClosing NodeType

fun bracket_scan :: "NodeType list \<Rightarrow> 'f Node list \<Rightarrow> verdict" where
  "bracket_scan stack [] = (case stack of [] \<Rightarrow> Balanced | k # ks \<Rightarrow> MissingClosing k)"
| "bracket_scan stack (x # xs) =
     (case x of
        NodeToken t \<Rightarrow>
          (case opening_kind (type t) of
             Some k \<Rightarrow> bracket_scan (k # stack) xs
           | None \<Rightarrow>
               (case closing_kind (type t) of
                  Some k \<Rightarrow>
                    (case stack of
                       [] \<Rightarrow> InvalidClosing k (line t) (column t)
                     | k' # ks \<Rightarrow>
                         if k' = k then bracket_scan ks xs
                         else InvalidClosing k (line t) (column t))
                | None \<Rightarrow> bracket_scan stack xs))
      | _ \<Rightarrow> bracket_scan stack xs)"

text \<open>The error a verdict stands for.\<close>

fun raises :: "verdict \<Rightarrow> failure \<Rightarrow> bool" where
  "raises (InvalidClosing k l c) (Throw (CompilerException e l' c')) =
     (e = INVALID_CLOSING k \<and> l' = l \<and> c' = c)"
| "raises (MissingClosing k) (Throw (CompilerException e l' c')) = (e = MISSING_CLOSING k)"
| "raises v u = False"

text \<open>The two errors of the precedence passes.\<close>

fun is_binop_failure :: "failure \<Rightarrow> bool" where
  "is_binop_failure (Throw (CompilerException e l c)) =
     (e = BINOP_MISSING_EXPRESSION \<or> e = BINOP_ILLEGAL_PATTERN)"
| "is_binop_failure UndefinedBehaviour = False"

text \<open>
  Bracket tokens, opening and closing bracket tokens, and the operator tokens of the
  two passes.
\<close>

fun is_bracket :: "'f Node \<Rightarrow> bool" where
  "is_bracket (NodeToken t) = (opening_kind (type t) \<noteq> None \<or> closing_kind (type t) \<noteq> None)"
| "is_bracket n = False"

fun is_opening :: "'f Node \<Rightarrow> bool" where
  "is_opening (NodeToken t) = (opening_kind (type t) \<noteq> None)"
| "is_opening n = False"

fun is_closing :: "'f Node \<Rightarrow> bool" where
  "is_closing (NodeToken t) = (closing_kind (type t) \<noteq> None)"
| "is_closing n = False"

fun is_operator :: "'f Node \<Rightarrow> bool" where
  "is_operator (NodeToken t) = (pass1_op (type t) \<noteq> None \<or> pass2_op (type t) \<noteq> None)"
| "is_operator n = False"

definition operator_free :: "'f Node list \<Rightarrow> bool" where
  "operator_free nodes = list_all (\<lambda>x. \<not> is_operator x) nodes"

fun is_missing :: "ErrorType \<Rightarrow> bool" where
  "is_missing MISSING_CLOSING_PAREN = True"
| "is_missing MISSING_CLOSING_SQUARE = True"
| "is_missing MISSING_CLOSING_CURLY = True"
| "is_missing e = False"

fun binop_failed :: "failure + 'a \<Rightarrow> bool" where
  "binop_failed (Inl u) = is_binop_failure u"
| "binop_failed (Inr v) = False"

text \<open>
  The groups that are completed, in the order in which they are completed: a
  bracketed group when its closing bracket is met, and the whole sequence at the end
  of the input. A completed group is resolved: its nodes are taken out of the list
  from the first one on and the two precedence passes run over them; the node that
  stands for a resolved bracketed group joins the nodes of the group around it. The
  resolution fails when a precedence pass does, and it is undefined when the group
  began with a bracketed group (\<open>nested_first\<close>), whose opening bracket was the first
  node of the group and has been erased. \<open>group_failure\<close> is the failure of the first
  group whose resolution fails, if one does before the first offence of the bracket
  structure. \<open>groups\<close> holds, innermost first, for every group that is open its kind
  and what is known of the group around it; \<open>nested_first\<close> and \<open>acc\<close> belong to the
  innermost open group.
\<close>

definition resolve :: "bool \<Rightarrow> 'f Node list \<Rightarrow> failure + 'f Node list" where
  "resolve nested_first acc = (if nested_first then Inl UndefinedBehaviour else process acc)"

fun group_failure ::
  "(NodeType \<times> bool \<times> 'f Node list) list \<Rightarrow> bool \<Rightarrow> 'f Node list \<Rightarrow> 'f Node list \<Rightarrow>
     failure option" where
  "group_failure groups nested_first acc [] =
     (case groups of
        [] \<Rightarrow> (case resolve nested_first acc of Inl u \<Rightarrow> Some u | Inr outputList \<Rightarrow> None)
      | g # gs \<Rightarrow> None)"
| "group_failure groups nested_first acc (x # xs) =
     (case x of
        NodeToken t \<Rightarrow>
          (case opening_kind (type t) of
             Some k \<Rightarrow> group_failure ((k, nested_first \<or> acc = [], acc) # groups) False [] xs
           | None \<Rightarrow>
               (case closing_kind (type t) of
                  Some k \<Rightarrow>
                    (case groups of
                       [] \<Rightarrow> None
                     | (k', nested_first', acc') # gs \<Rightarrow>
                         if k' = k then
                           (case resolve nested_first acc of
                              Inl u \<Rightarrow> Some u
                            | Inr outputList \<Rightarrow>
                                group_failure gs nested_first' (acc' @ [group_node k outputList]) xs)
                         else None)
                | None \<Rightarrow> group_failure groups nested_first (acc @ [x]) xs))
      | _ \<Rightarrow> group_failure groups nested_first (acc @ [x]) xs)"

text \<open>
  A group begins with an opening bracket: the first node of the sequence is an
  opening bracket, or an opening bracket directly follows another. \<open>at_start\<close> says
  that the scan stands on the first node of a group.
\<close>

fun opening_first :: "bool \<Rightarrow> 'f Node list \<Rightarrow> bool" where
  "opening_first at_start [] = False"
| "opening_first at_start (x # xs) =
     (if is_opening x then at_start \<or> opening_first True xs else opening_first False xs)"

text \<open>
  The stack of open kinds inside a call of \<open>condenseAST\<close> with argument \<open>type\<close>, when the
  enclosing calls have \<open>S\<close> open, and the open groups with their nodes.
\<close>

definition open_stack :: "NodeType \<Rightarrow> NodeType list \<Rightarrow> NodeType list" where
  "open_stack ty S = (if ty = NT_NONE then [] else ty # S)"

definition open_groups ::
  "NodeType \<Rightarrow> bool \<times> 'f Node list \<Rightarrow> (NodeType \<times> bool \<times> 'f Node list) list \<Rightarrow>
     (NodeType \<times> bool \<times> 'f Node list) list" where
  "open_groups ty around G = (if ty = NT_NONE then [] else (ty, around) # G)"

text \<open>
  The result of a call of \<open>condenseAST\<close> against the two scans of the nodes it was
  given: a return at top level means the nodes are balanced and no group failed, a
  return inside a group means the scans are back at the enclosing level after the
  closing bracket returned, and an error is the failure of the first group that
  fails, or the one the bracket scan's verdict stands for.
\<close>

definition agrees ::
  "NodeType \<Rightarrow> bool \<Rightarrow> 'f Node list \<Rightarrow> 'f Node list \<Rightarrow>
     failure + ('f Node list \<times> 'f Node list) \<Rightarrow> bool" where
  "agrees ty erased acc xs r =
     (case r of
        Inr (out, rest) \<Rightarrow>
          if ty = NT_NONE then
            rest = [] \<and> bracket_scan [] xs = Balanced \<and> group_failure [] erased acc xs = None
          else (\<exists>t rest'. rest = NodeToken t # rest' \<and> opening_kind (type t) = None
                  \<and> closing_kind (type t) = Some ty
                  \<and> (\<forall>S. bracket_scan (ty # S) xs = bracket_scan S rest')
                  \<and> (\<forall>G erased' acc'.
                        group_failure ((ty, erased', acc') # G) erased acc xs =
                          group_failure G erased' (acc' @ [group_node ty out]) rest'))
      | Inl u \<Rightarrow>
          ((u = UndefinedBehaviour \<or> is_binop_failure u)
             \<and> (\<forall>G around. group_failure (open_groups ty around G) erased acc xs = Some u))
          \<or> ((\<forall>S. raises (bracket_scan (open_stack ty S) xs) u)
               \<and> (\<forall>G around. group_failure (open_groups ty around G) erased acc xs = None)))"

subsection \<open>The working string after a run of characters\<close>

text \<open>\<open>str\<close> after the characters \<open>cs\<close> have been stored from index \<open>i\<close> on.\<close>

fun write_chars :: "(nat \<Rightarrow> char) \<Rightarrow> nat \<Rightarrow> string \<Rightarrow> (nat \<Rightarrow> char)" where
  "write_chars buf i [] = buf"
| "write_chars buf i (ch # cs) = write_chars (buf(i := ch)) (i + 1) cs"

subsection \<open>The content of a string literal\<close>

text \<open>
  The content of a string literal as the lexer reads it: a sequence of characters,
  each written as itself or as an escape sequence, which is a backslash and one more
  character. A character written as itself is neither the quote, which ends the
  literal, nor the backslash, which starts an escape sequence. \<open>spelling\<close> is the text
  of a character in the source and \<open>denoted\<close> the character it stands for.
\<close>

datatype string_char = Plain char | Escaped char

fun spelling :: "string_char \<Rightarrow> string" where
  "spelling (Plain ch) = [ch]"
| "spelling (Escaped ch) = [BACKSLASH, ch]"

fun denoted :: "string_char \<Rightarrow> char" where
  "denoted (Plain ch) = ch"
| "denoted (Escaped ch) =
     (if ch = CHR ''n'' then NEWLINE
      else if ch = CHR ''c'' then ESC
      else if ch = CHR ''0'' then NUL
      else if ch = CHR ''t'' then TAB
      else ch)"

fun well_formed :: "string_char \<Rightarrow> bool" where
  "well_formed (Plain ch) = (ch \<noteq> DQUOTE \<and> ch \<noteq> BACKSLASH)"
| "well_formed (Escaped ch) = True"

text \<open>
  The lexer counts lines and columns from the character it holds, which is the one
  read before: after a newline the next character stands in column 0 of the next
  line, and otherwise in the next column of the same line (\<open>next_pos\<close>). An escape
  sequence takes two columns; a backslash and \<open>n\<close> leave a newline in the character
  held and decrease the line count by one, so that the next character stands in
  column 0 of the same line. \<open>read_char p e\<close> is the line and the column at which the character
  \<open>e\<close> of a content is appended, and the character held then, when \<open>p\<close> were those
  before. \<open>literal_pos\<close> starts from the opening quote of a literal at line 0, column
  0: \<open>char_pos content n\<close> is where the \<open>n\<close>-th character of the content is appended and
  \<open>quote_pos content\<close> where the closing quote stands.
\<close>

fun next_pos :: "int \<times> int \<times> char \<Rightarrow> int \<times> int" where
  "next_pos (l, c, prev) = (if prev = NEWLINE then (l + 1, 0) else (l, c + 1))"

fun read_char :: "int \<times> int \<times> char \<Rightarrow> string_char \<Rightarrow> int \<times> int \<times> char" where
  "read_char p (Plain ch) = (fst (next_pos p), snd (next_pos p), ch)"
| "read_char p (Escaped ch) =
     ((if ch = CHR ''n'' then fst (next_pos p) - 1 else fst (next_pos p)),
      snd (next_pos p) + 1, denoted (Escaped ch))"

definition literal_pos :: "string_char list \<Rightarrow> int \<times> int \<times> char" where
  "literal_pos content = foldl read_char (0, 0, DQUOTE) content"

definition char_pos :: "string_char list \<Rightarrow> nat \<Rightarrow> int \<times> int" where
  "char_pos content n =
     (fst (literal_pos (take n content)), fst (snd (literal_pos (take n content))))"

definition quote_pos :: "string_char list \<Rightarrow> int \<times> int" where
  "quote_pos content = next_pos (literal_pos content)"

text \<open>
  The locals \<open>s'\<close> of the lexer inside a string literal, between two characters of its
  content, after the characters \<open>vs\<close> have been appended to the working string of \<open>s\<close>.
\<close>

definition appended :: "'f tokenize_locals \<Rightarrow> string \<Rightarrow> 'f tokenize_locals \<Rightarrow> bool" where
  "appended s vs s' =
     (isStr s' \<and> \<not> isEscaped s' \<and> strlen s' = strlen s + length vs
      \<and> str s' = write_chars (str s) (strlen s) vs \<and> tokenList s' = tokenList s
      \<and> isBlockComment s' = isBlockComment s \<and> isComment s' = isComment s
      \<and> isNumber s' = isNumber s)"

text \<open>The line, the column and the character the lexer holds.\<close>

definition pos_of :: "'f tokenize_locals \<Rightarrow> int \<times> int \<times> char" where
  "pos_of s = (cur_line s, cur_column s, cur_c s)"

section \<open>Evaluating the model\<close>

text \<open>
  Concrete inputs for the closed theorems: float arithmetic on the reals, and a
  machine with sixteen registers of each width.
\<close>

definition real_ops :: "real float_ops" where
  "real_ops = \<lparr>of_int_f = real_of_int, fadd = (+), fmul = (*), fdiv = (/)\<rparr>"

definition example_target :: target where
  "example_target =
     \<lparr>MOV_W = 1, W0 = 0, B0 = 16, NUM_WORD_REGISTERS = 16, NUM_BYTE_REGISTERS = 16,
      order = LittleEndian\<rparr>"

lemma c_string_from_unfold:
  "c_string_from buf i n =
     (if n = 0 then [] else if buf i = NUL then [] else buf i # c_string_from buf (i + 1) (n - 1))"
  by (cases n) simp_all

lemmas lexer_defs =
  tokenize_def tokenize_init_def tokenize_body_def tokenize_token_def
  tokenize_end_of_token_def finish_token_def tokenize_string_def string_add_def
  add_char_def terminate_str_def advance_def c_string_def MAX_STR_SIZE_def
  token1s_def token2s_def firstToken1_def firstToken2_def firstKeyword_def keyword_table_def
  in_range_def char_code_def Token_def TokenStr_def
  parseNumber_def number_prefix_def digit_of_def in_int_t_def Let_def

lemmas ast_defs =
  constructAST_def promote_def process_def pass1_op_def pass2_op_def resolve_binop_def
  arithmeticBinopPatterns_def Pattern1_def Pattern2_def Pattern3_def opening_kind_def
  closing_kind_def is_group_kind_def condenseAST.simps

lemmas emit_defs =
  makeBytecode_def RegManager_new_def getWord_def ASM_WRITE_def compile'_def

lemma replicate_16: "replicate 16 x = x # replicate 15 x"
  by (simp add: numeral_eq_Suc)

section \<open>Line comments\<close>

text \<open>
  In line-comment mode every character other than a newline is consumed and nothing
  else changes.
\<close>

lemma last_not_newline:
  "a \<noteq> NEWLINE \<Longrightarrow> NEWLINE \<notin> set body \<Longrightarrow> last (a # body) \<noteq> NEWLINE"
  by (metis last_in_set list.distinct(1) set_ConsD)

lemma tokenize_body_comment:
  "isComment s \<Longrightarrow> \<not> isStr s \<Longrightarrow> \<not> isBlockComment s \<Longrightarrow> cur_c s \<noteq> NEWLINE \<Longrightarrow>
   b \<noteq> NEWLINE \<Longrightarrow>
     tokenize_body F False ((advance s)\<lparr>cur_c := b\<rparr>) =
       Inr (s\<lparr>cur_column := cur_column s + 1, cur_c := b\<rparr>)"
  by (simp add: tokenize_body_def advance_def)

lemma tokenize_loop_comment:
  "isComment s \<Longrightarrow> \<not> isStr s \<Longrightarrow> \<not> isBlockComment s \<Longrightarrow> NEWLINE \<notin> set body \<Longrightarrow>
   cur_c s \<noteq> NEWLINE \<Longrightarrow>
   tokenize_loop F s (body @ rest) =
     tokenize_loop F
       (s\<lparr>cur_c := last (cur_c s # body), cur_column := cur_column s + int (length body)\<rparr>) rest"
proof (induction body arbitrary: s)
  case Nil
  then show ?case by simp
next
  case (Cons b body)
  let ?s1 = "s\<lparr>cur_column := cur_column s + 1, cur_c := b\<rparr>"
  from Cons.prems have bn: "b \<noteq> NEWLINE" and nl: "NEWLINE \<notin> set body" by auto
  have step: "tokenize_body F False ((advance s)\<lparr>cur_c := b\<rparr>) = Inr ?s1"
    using Cons.prems bn by (intro tokenize_body_comment)
  have "tokenize_loop F s ((b # body) @ rest) = tokenize_loop F ?s1 (body @ rest)"
    by (simp only: append_Cons tokenize_loop.simps step sum.case)
  also have "\<dots> = tokenize_loop F
       (?s1\<lparr>cur_c := last (cur_c ?s1 # body), cur_column := cur_column ?s1 + int (length body)\<rparr>) rest"
    using Cons.prems bn nl by (intro Cons.IH) simp_all
  also have "?s1\<lparr>cur_c := last (cur_c ?s1 # body), cur_column := cur_column ?s1 + int (length body)\<rparr>
     = s\<lparr>cur_c := last (cur_c s # b # body), cur_column := cur_column s + int (length (b # body))\<rparr>"
    by simp
  finally show ?case .
qed

lemma tokenize_loop_comment_start:
  "tokenize_loop F (tokenize_init garbage) (''//'' @ body) =
     tokenize_loop F
       ((tokenize_init garbage)
          \<lparr>tokenList := [Token T_SLASH_SLASH 0 1], cur_c := CHR ''/'', cur_column := 1,
           isComment := True\<rparr>) body"
  by (simp add: lexer_defs)

lemma tokenize_loop_comment_end:
  "isComment s \<Longrightarrow> \<not> isStr s \<Longrightarrow> \<not> isBlockComment s \<Longrightarrow> \<not> isNumber s \<Longrightarrow>
   strlen s = 0 \<Longrightarrow> token1Index s = - 1 \<Longrightarrow> cur_c s \<noteq> NEWLINE \<Longrightarrow>
   tokenize_loop F s [NEWLINE] =
     Inr (s\<lparr>cur_column := 0, cur_c := NEWLINE, isComment := False, cur_line := cur_line s + 1,
            token1Index := - 1, isNumber := False, strlen := 0\<rparr>)"
  by (simp add: lexer_defs)

text \<open>
  C5. For every comment body without a newline, the source \<open>//\<close>, body, newline lexes
  to exactly one token: the two-character token \<open>SLASH_SLASH\<close> at the position of the
  second slash. So no character of the comment body yields a token, but the \<open>//\<close> pair
  itself does: the \<open>else\<close> that appends a token2 belongs to the \<open>SLASH_STAR\<close> test alone,
  and \<open>SLASH_SLASH\<close> takes it.
\<close>

theorem line_comment_emits_token:
  "NEWLINE \<notin> set body \<Longrightarrow>
     tokenize F garbage (''//'' @ body @ [NEWLINE]) = Inr [Token T_SLASH_SLASH 0 1]"
proof -
  assume nl: "NEWLINE \<notin> set body"
  define s2 :: "'a tokenize_locals" where
    "s2 = (tokenize_init garbage)
            \<lparr>tokenList := [Token T_SLASH_SLASH 0 1], cur_c := CHR ''/'', cur_column := 1,
             isComment := True\<rparr>"
  define s3 where
    "s3 = s2\<lparr>cur_c := last (cur_c s2 # body), cur_column := cur_column s2 + int (length body)\<rparr>"
  have c2: "cur_c s2 = CHR ''/''"
    by (simp add: s2_def)
  have "last (CHR ''/'' # body) \<noteq> NEWLINE"
    using nl by (intro last_not_newline) simp_all
  then have l: "cur_c s3 \<noteq> NEWLINE"
    by (simp add: s3_def c2 del: last.simps)
  have a: "tokenize_loop F (tokenize_init garbage) (''//'' @ body @ [NEWLINE]) =
          tokenize_loop F s2 (body @ [NEWLINE])"
    unfolding s2_def by (rule tokenize_loop_comment_start)
  have b: "tokenize_loop F s2 (body @ [NEWLINE]) = tokenize_loop F s3 [NEWLINE]"
    unfolding s3_def using nl
    by (intro tokenize_loop_comment) (simp_all add: s2_def tokenize_init_def)
  have c: "tokenize_loop F s3 [NEWLINE] =
     Inr (s3\<lparr>cur_column := 0, cur_c := NEWLINE, isComment := False, cur_line := cur_line s3 + 1,
            token1Index := - 1, isNumber := False, strlen := 0\<rparr>)"
    using l by (intro tokenize_loop_comment_end) (simp_all add: s3_def s2_def tokenize_init_def)
  have t: "tokenList s3 = [Token T_SLASH_SLASH 0 1]"
    by (simp add: s3_def s2_def)
  show ?thesis
    unfolding tokenize_def a b c using t by simp
qed

theorem line_comment_emits_token_witness:
  "NEWLINE \<notin> set ''a comment''
   \<and> tokenize real_ops (\<lambda>i. NUL) (''//'' @ ''a comment'' @ [NEWLINE]) =
       Inr [\<lparr>type = T_SLASH_SLASH, hasStr = False, line = 0, column = 1, data = NoData\<rparr>]"
proof -
  have h: "NEWLINE \<notin> set ''a comment''" by simp
  from line_comment_emits_token [OF h, of real_ops "\<lambda>i. NUL"] h show ?thesis
    by (simp only: Token_def simp_thms)
qed

section \<open>Numerals with a leading zero\<close>

lemma number_prefix_rejects:
  assumes "t \<noteq> NUL" "\<not> in_range (CHR ''0'') t (CHR ''9'')"
    "t \<noteq> CHR ''x''" "t \<noteq> CHR ''b''" "t \<noteq> CHR ''d''" "t \<noteq> CHR ''.''"
  shows "number_prefix (CHR ''0'' # t # rest) = None"
  using assms by (auto simp: number_prefix_def in_range_def)

text \<open>The buffered text is no longer than \<open>strlen\<close>.\<close>

lemma c_string_from_length:
  "buf (i + k) = NUL \<Longrightarrow> length (c_string_from buf i m) \<le> k"
proof (induction k arbitrary: i m)
  case 0
  then show ?case by (cases m) simp_all
next
  case (Suc k)
  show ?case
  proof (cases m)
    case 0
    then show ?thesis by simp
  next
    case (Suc m')
    from Suc.prems have "buf (Suc i + k) = NUL" by simp
    from Suc.IH [OF this] have "length (c_string_from buf (Suc i) m') \<le> k" .
    with Suc show ?thesis by simp
  qed
qed

lemma c_string_length: "length (c_string (buf(n := NUL))) \<le> n"
  unfolding c_string_def by (rule c_string_from_length) simp

text \<open>
  C6. For every numeral text that begins with \<open>0\<close> and whose second character exists,
  is not a digit and is none of \<open>x\<close>, \<open>b\<close>, \<open>d\<close> and \<open>.\<close>, the Number Parser fails (it
  returns 1 and leaves the token unresolved), and the lexer raises \<open>InvalidNumber\<close> at
  its current position when it finishes a number token whose buffered text is that
  numeral: in \<open>finish_token\<close>, and so in the iteration of the loop that reads the first
  character that does not continue the number.
\<close>

theorem leading_zero_rejected:
  assumes t: "t \<noteq> NUL" "\<not> in_range (CHR ''0'') t (CHR ''9'')"
    "t \<noteq> CHR ''x''" "t \<noteq> CHR ''b''" "t \<noteq> CHR ''d''" "t \<noteq> CHR ''.''"
    and s: "isNumber s" "strlen s < MAX_STR_SIZE + 1"
    and num: "c_string ((str s)(strlen s := NUL)) = CHR ''0'' # t # rest"
  shows "parseNumber F (TokenStr T_NUM_UNIDENTIFIED l c (CHR ''0'' # t # rest)) =
           Inr (1, TokenStr T_NUM_UNIDENTIFIED l c (CHR ''0'' # t # rest))
         \<and> finish_token F s = throw INVALID_NUMBER (cur_line s) (cur_column s)
         \<and> (\<not> isStr s \<and> \<not> isBlockComment s \<and> \<not> isComment s \<and> token1Index s < 0
              \<and> \<not> (\<not> end_flag \<and> in_range (CHR ''0'') (cur_c s) (CHR ''9''))
              \<and> \<not> in_range (CHR ''A'') (cur_c s) (CHR ''Z'')
              \<and> \<not> in_range (CHR ''a'') (cur_c s) (CHR ''z'')
              \<and> (cur_c s = CHR ''.'' \<longrightarrow> hasDecimal s) \<longrightarrow>
            tokenize_body F end_flag s = throw INVALID_NUMBER (cur_line s) (cur_column s))"
proof -
  have np: "number_prefix (CHR ''0'' # t # rest) = None"
    using t by (rule number_prefix_rejects)
  have len: "2 \<le> strlen s"
    using c_string_length [of "str s" "strlen s"] num by simp
  have fin: "finish_token F s1 = throw INVALID_NUMBER (cur_line s) (cur_column s)"
    if "s1 = s\<lparr>token1Index := k\<rparr>" for s1 k
    using that s num np
    by (simp add: parseNumber_def finish_token_def terminate_str_def TokenStr_def)
  have body: "tokenize_body F end_flag s = throw INVALID_NUMBER (cur_line s) (cur_column s)"
    if "\<not> isStr s" "\<not> isBlockComment s" "\<not> isComment s" "token1Index s < 0"
      "\<not> (\<not> end_flag \<and> in_range (CHR ''0'') (cur_c s) (CHR ''9''))"
      "\<not> in_range (CHR ''A'') (cur_c s) (CHR ''Z'')"
      "\<not> in_range (CHR ''a'') (cur_c s) (CHR ''z'')"
      "cur_c s = CHR ''.'' \<longrightarrow> hasDecimal s"
  proof -
    have x: "cur_c s \<noteq> CHR ''x''" "cur_c s \<noteq> CHR ''b''"
      using that(7) by (auto simp: in_range_def char_code_def)
    have "tokenize_body F end_flag s = tokenize_token F end_flag s"
      using that s x by (auto simp: tokenize_body_def)
    also have "\<dots> = tokenize_end_of_token F end_flag s"
      using that by (simp add: tokenize_token_def)
    also have "\<dots> = throw INVALID_NUMBER (cur_line s) (cur_column s)"
      using s len fin [OF refl, of "find_token1 (cur_c s) token1s 0"]
      by (simp add: tokenize_end_of_token_def Let_def)
    finally show ?thesis .
  qed
  have "finish_token F s = throw INVALID_NUMBER (cur_line s) (cur_column s)"
    using fin [of s "token1Index s"] by simp
  moreover have "parseNumber F (TokenStr T_NUM_UNIDENTIFIED l c (CHR ''0'' # t # rest)) =
           Inr (1, TokenStr T_NUM_UNIDENTIFIED l c (CHR ''0'' # t # rest))"
    using np by (simp add: parseNumber_def TokenStr_def)
  ultimately show ?thesis using body by blast
qed

theorem leading_zero_rejected_witness:
  "CHR ''z'' \<noteq> NUL \<and> \<not> in_range (CHR ''0'') (CHR ''z'') (CHR ''9'')
   \<and> parseNumber real_ops (TokenStr T_NUM_UNIDENTIFIED 0 2 ''0z'') =
       Inr (1, TokenStr T_NUM_UNIDENTIFIED 0 2 ''0z'')
   \<and> tokenize real_ops (\<lambda>i. NUL) ''0z '' = throw INVALID_NUMBER 0 2"
proof -
  define s :: "real tokenize_locals" where
    "s = (tokenize_init (\<lambda>i. NUL))
           \<lparr>str := (\<lambda>i. NUL)(0 := CHR ''0'', 1 := CHR ''z''), strlen := 2, isNumber := True\<rparr>"
  have a: "CHR ''z'' \<noteq> NUL" "\<not> in_range (CHR ''0'') (CHR ''z'') (CHR ''9'')"
    "CHR ''z'' \<noteq> CHR ''x''" "CHR ''z'' \<noteq> CHR ''b''" "CHR ''z'' \<noteq> CHR ''d''" "CHR ''z'' \<noteq> CHR ''.''"
    by (simp_all add: in_range_def char_code_def)
  have b: "isNumber s" "strlen s < MAX_STR_SIZE + 1"
    "c_string ((str s)(strlen s := NUL)) = CHR ''0'' # CHR ''z'' # []"
    by (simp_all add: s_def tokenize_init_def MAX_STR_SIZE_def c_string_def c_string_from_unfold)
  have c: "tokenize real_ops (\<lambda>i. NUL) ''0z '' = throw INVALID_NUMBER 0 2"
    by (simp add: lexer_defs c_string_from_unfold)
  from leading_zero_rejected [OF a b, where F = real_ops and l = 0 and c = 2 and end_flag = False]
    a c
  show ?thesis by simp
qed

text \<open>
  The claim as stated fails for a digit after the leading zero: the switch on the
  second character is guarded by \<open>t < '0' || t > '9'\<close>, and \<open>09\<close> is the integer 9.
\<close>

theorem leading_zero_counterexample:
  "parseNumber real_ops (TokenStr T_NUM_UNIDENTIFIED 0 2 ''09'')
     = Inr (0, \<lparr>type = T_NUM_INT, hasStr = False, line = 0, column = 2, data = IntData 9\<rparr>)
   \<and> tokenize real_ops (\<lambda>i. NUL) ''09''
     = Inr [\<lparr>type = T_NUM_INT, hasStr = False, line = 0, column = 2, data = IntData 9\<rparr>]"
  by (simp add: lexer_defs c_string_from_unfold)

section \<open>String literals and MAX\_STR\_SIZE\<close>

lemma write_chars_below: "j < i \<Longrightarrow> write_chars buf i cs j = buf j"
  by (induction cs arbitrary: buf i) simp_all

lemma write_chars_snoc: "write_chars buf i (cs @ [ch]) = (write_chars buf i cs)(i + length cs := ch)"
  by (induction cs arbitrary: buf i) simp_all

lemma c_string_from_write_chars:
  "NUL \<notin> set cs \<Longrightarrow> length cs < m \<Longrightarrow>
     c_string_from ((write_chars buf i cs)(i + length cs := NUL)) i m = cs"
proof (induction cs arbitrary: buf i m)
  case Nil
  then show ?case by (cases m) simp_all
next
  case (Cons ch cs)
  from Cons.prems obtain m' where m: "m = Suc m'" and len: "length cs < m'"
    by (cases m) auto
  from Cons.prems have ch: "ch \<noteq> NUL" and nul: "NUL \<notin> set cs" by auto
  define f where "f = (write_chars (buf(i := ch)) (i + 1) cs)(i + 1 + length cs := NUL)"
  have eq: "(write_chars buf i (ch # cs))(i + length (ch # cs) := NUL) = f"
    by (simp add: f_def)
  have fi: "f i = ch"
    by (simp add: f_def write_chars_below)
  have ih: "c_string_from f (i + 1) m' = cs"
    unfolding f_def using nul len by (rule Cons.IH)
  show ?case
    unfolding eq m using fi ih ch by simp
qed

lemma tokenize_body_string_char:
  "isStr s \<Longrightarrow> \<not> isEscaped s \<Longrightarrow> strlen s < MAX_STR_SIZE \<Longrightarrow> cur_c s \<noteq> NEWLINE \<Longrightarrow>
   b \<noteq> DQUOTE \<Longrightarrow> b \<noteq> BACKSLASH \<Longrightarrow>
     tokenize_body F False ((advance s)\<lparr>cur_c := b\<rparr>) =
       Inr (s\<lparr>cur_column := cur_column s + 1, cur_c := b,
              str := (str s)(strlen s := b), strlen := strlen s + 1\<rparr>)"
  by (simp add: tokenize_body_def tokenize_string_def string_add_def add_char_def advance_def)

lemma tokenize_body_string_too_long:
  "isStr s \<Longrightarrow> \<not> isEscaped s \<Longrightarrow> MAX_STR_SIZE \<le> strlen s \<Longrightarrow>
   cur_c s \<noteq> DQUOTE \<Longrightarrow> cur_c s \<noteq> BACKSLASH \<Longrightarrow>
     tokenize_body F end_flag s = throw STRING_TOO_LONG (cur_line s) (cur_column s)"
  by (simp add: tokenize_body_def tokenize_string_def string_add_def)

lemma tokenize_loop_string:
  "isStr s \<Longrightarrow> \<not> isEscaped s \<Longrightarrow> strlen s + length cs \<le> MAX_STR_SIZE \<Longrightarrow>
   DQUOTE \<notin> set cs \<Longrightarrow> BACKSLASH \<notin> set cs \<Longrightarrow> NEWLINE \<notin> set cs \<Longrightarrow>
   cur_c s \<noteq> NEWLINE \<Longrightarrow>
   tokenize_loop F s (cs @ rest) =
     tokenize_loop F
       (s\<lparr>cur_c := last (cur_c s # cs), cur_column := cur_column s + int (length cs),
          str := write_chars (str s) (strlen s) cs, strlen := strlen s + length cs\<rparr>) rest"
proof (induction cs arbitrary: s)
  case Nil
  then show ?case by simp
next
  case (Cons b cs)
  let ?s1 = "s\<lparr>cur_column := cur_column s + 1, cur_c := b,
              str := (str s)(strlen s := b), strlen := strlen s + 1\<rparr>"
  from Cons.prems have b: "b \<noteq> DQUOTE" "b \<noteq> BACKSLASH" "b \<noteq> NEWLINE"
    and cs: "DQUOTE \<notin> set cs" "BACKSLASH \<notin> set cs" "NEWLINE \<notin> set cs"
    and len: "strlen s < MAX_STR_SIZE" "strlen ?s1 + length cs \<le> MAX_STR_SIZE"
    by auto
  have step: "tokenize_body F False ((advance s)\<lparr>cur_c := b\<rparr>) = Inr ?s1"
    using Cons.prems(1,2,7) len(1) b(1,2) by (intro tokenize_body_string_char)
  have "tokenize_loop F s ((b # cs) @ rest) = tokenize_loop F ?s1 (cs @ rest)"
    by (simp only: append_Cons tokenize_loop.simps step sum.case)
  also have "\<dots> = tokenize_loop F
       (?s1\<lparr>cur_c := last (cur_c ?s1 # cs), cur_column := cur_column ?s1 + int (length cs),
          str := write_chars (str ?s1) (strlen ?s1) cs, strlen := strlen ?s1 + length cs\<rparr>) rest"
    using Cons.prems(1,2) cs len(2) b(3) by (intro Cons.IH) simp_all
  also have "?s1\<lparr>cur_c := last (cur_c ?s1 # cs), cur_column := cur_column ?s1 + int (length cs),
          str := write_chars (str ?s1) (strlen ?s1) cs, strlen := strlen ?s1 + length cs\<rparr>
     = s\<lparr>cur_c := last (cur_c s # b # cs), cur_column := cur_column s + int (length (b # cs)),
          str := write_chars (str s) (strlen s) (b # cs), strlen := strlen s + length (b # cs)\<rparr>"
    by simp
  finally show ?case .
qed


lemma last_not_in_set: "a \<noteq> x \<Longrightarrow> x \<notin> set cs \<Longrightarrow> last (a # cs) \<noteq> x"
  by (metis last_in_set list.distinct(1) set_ConsD)

lemmas lexer_step_defs =
  tokenize_body_def tokenize_token_def tokenize_end_of_token_def finish_token_def
  tokenize_string_def string_add_def add_char_def terminate_str_def advance_def
  token1s_def token2s_def firstToken1_def firstToken2_def
  in_range_def char_code_def Let_def

lemma tokenize_loop_string_start:
  "tokenize_loop F (tokenize_init garbage) (DQUOTE # file) =
     tokenize_loop F
       ((tokenize_init garbage)
          \<lparr>cur_c := DQUOTE, cur_column := 0, token1Index := T_DBLQUOTE, isStr := True\<rparr>) file"
  by (simp add: lexer_step_defs tokenize_init_def)

lemma tokenize_loop_string_end:
  "isStr s \<Longrightarrow> \<not> isEscaped s \<Longrightarrow> \<not> isBlockComment s \<Longrightarrow> \<not> isComment s \<Longrightarrow>
   \<not> isNumber s \<Longrightarrow> strlen s \<le> MAX_STR_SIZE \<Longrightarrow> cur_c s \<noteq> NEWLINE \<Longrightarrow>
   (case tokenize_loop F s [DQUOTE] of Inl u \<Rightarrow> Inl u | Inr s1 \<Rightarrow> Inr (tokenList s1)) =
     Inr (tokenList s @
           [TokenStr T_STRING (cur_line s) (cur_column s + 1)
              (c_string ((str s)(strlen s := NUL)))])"
  by (simp add: lexer_step_defs)

lemma tokenize_string_literal:
  assumes "DQUOTE \<notin> set content" "BACKSLASH \<notin> set content" "NUL \<notin> set content"
    "NEWLINE \<notin> set content"
  shows "tokenize F garbage (DQUOTE # content @ [DQUOTE]) =
     (if length content \<le> MAX_STR_SIZE
      then Inr [TokenStr T_STRING 0 (int (length content) + 1) content]
      else throw STRING_TOO_LONG 0 (int MAX_STR_SIZE + 1))"
proof -
  define s1 :: "'a tokenize_locals" where
    "s1 = (tokenize_init garbage)
            \<lparr>cur_c := DQUOTE, cur_column := 0, token1Index := T_DBLQUOTE, isStr := True\<rparr>"
  have s1: "isStr s1" "\<not> isEscaped s1" "\<not> isBlockComment s1" "\<not> isComment s1" "\<not> isNumber s1"
    "strlen s1 = 0" "cur_c s1 = DQUOTE" "cur_column s1 = 0" "cur_line s1 = 0" "str s1 = garbage"
    "tokenList s1 = []"
    by (simp_all add: s1_def tokenize_init_def)
  have a: "tokenize_loop F (tokenize_init garbage) (DQUOTE # inp) = tokenize_loop F s1 inp"
    for inp
    unfolding s1_def by (rule tokenize_loop_string_start)
  show ?thesis
  proof (cases "length content \<le> MAX_STR_SIZE")
    case True
    define s2 where
      "s2 = s1\<lparr>cur_c := last (cur_c s1 # content),
                cur_column := cur_column s1 + int (length content),
                str := write_chars (str s1) (strlen s1) content,
                strlen := strlen s1 + length content\<rparr>"
    have b: "tokenize_loop F s1 (content @ [DQUOTE]) = tokenize_loop F s2 [DQUOTE]"
      unfolding s2_def using assms True s1 by (intro tokenize_loop_string) simp_all
    have "last (DQUOTE # content) \<noteq> NEWLINE"
      using assms(4) by (intro last_not_in_set) simp_all
    then have s2: "isStr s2" "\<not> isEscaped s2" "\<not> isBlockComment s2" "\<not> isComment s2"
      "\<not> isNumber s2" "strlen s2 \<le> MAX_STR_SIZE" "cur_c s2 \<noteq> NEWLINE"
      using s1 True by (simp_all add: s2_def del: last.simps)
    have v: "tokenList s2 = []" "cur_line s2 = 0" "cur_column s2 = int (length content)"
      "str s2 = write_chars garbage 0 content" "strlen s2 = length content"
      using s1 by (simp_all add: s2_def)
    have "c_string ((write_chars garbage 0 content)(0 + length content := NUL)) = content"
      unfolding c_string_def using assms(3) True by (intro c_string_from_write_chars) simp_all
    then have c: "c_string ((str s2)(strlen s2 := NUL)) = content"
      using v by simp
    show ?thesis
      unfolding tokenize_def append_Cons a b
      using tokenize_loop_string_end [OF s2, of F] True c v
      by (simp split: sum.splits)
  next
    case False
    define pre where "pre = take MAX_STR_SIZE content"
    from False have "drop MAX_STR_SIZE content \<noteq> []" by simp
    then obtain x more where d: "drop MAX_STR_SIZE content = x # more"
      by (cases "drop MAX_STR_SIZE content") auto
    have content: "content = pre @ x # more"
      unfolding pre_def using d by (metis append_take_drop_id)
    have plen: "length pre = MAX_STR_SIZE"
      unfolding pre_def using False by simp
    have pre: "DQUOTE \<notin> set pre" "BACKSLASH \<notin> set pre" "NEWLINE \<notin> set pre"
      and x: "x \<noteq> DQUOTE" "x \<noteq> BACKSLASH"
      using assms unfolding content by auto
    define s2 where
      "s2 = s1\<lparr>cur_c := last (cur_c s1 # pre),
                cur_column := cur_column s1 + int (length pre),
                str := write_chars (str s1) (strlen s1) pre,
                strlen := strlen s1 + length pre\<rparr>"
    have b: "tokenize_loop F s1 (pre @ x # more @ [DQUOTE]) =
               tokenize_loop F s2 (x # more @ [DQUOTE])"
      unfolding s2_def using pre plen s1 by (intro tokenize_loop_string) simp_all
    have "last (DQUOTE # pre) \<noteq> NEWLINE"
      using pre(3) by (intro last_not_in_set) simp_all
    then have c2: "cur_c s2 \<noteq> NEWLINE"
      using s1 by (simp add: s2_def del: last.simps)
    have s2: "isStr s2" "\<not> isEscaped s2" "strlen s2 = MAX_STR_SIZE" "cur_line s2 = 0"
      "cur_column s2 = int MAX_STR_SIZE"
      using s1 plen by (simp_all add: s2_def)
    have adv: "advance s2 = s2\<lparr>cur_column := cur_column s2 + 1\<rparr>"
      using c2 by (simp add: advance_def)
    have "tokenize_body F False ((advance s2)\<lparr>cur_c := x\<rparr>) =
            throw STRING_TOO_LONG (cur_line ((advance s2)\<lparr>cur_c := x\<rparr>))
              (cur_column ((advance s2)\<lparr>cur_c := x\<rparr>))"
      using s2 x by (intro tokenize_body_string_too_long) (simp_all add: adv)
    then have c: "tokenize_body F False ((advance s2)\<lparr>cur_c := x\<rparr>) =
            throw STRING_TOO_LONG 0 (int MAX_STR_SIZE + 1)"
      using s2 by (simp add: adv)
    have "tokenize F garbage (DQUOTE # content @ [DQUOTE]) = throw STRING_TOO_LONG 0 (int MAX_STR_SIZE + 1)"
      unfolding tokenize_def content append_Cons append_assoc a b
      by (simp only: tokenize_loop.simps c sum.case)
    then show ?thesis using False by simp
  qed
qed

lemma c_string_from_write_chars_nul:
  "length cs < m \<Longrightarrow>
     c_string_from ((write_chars buf i cs)(i + length cs := NUL)) i m =
       takeWhile (\<lambda>ch. ch \<noteq> NUL) cs"
proof (induction cs arbitrary: buf i m)
  case Nil
  then show ?case by (cases m) simp_all
next
  case (Cons ch cs)
  from Cons.prems obtain m' where m: "m = Suc m'" and len: "length cs < m'"
    by (cases m) auto
  define f where "f = (write_chars (buf(i := ch)) (i + 1) cs)(i + 1 + length cs := NUL)"
  have eq: "(write_chars buf i (ch # cs))(i + length (ch # cs) := NUL) = f"
    by (simp add: f_def)
  have fi: "f i = ch"
    by (simp add: f_def write_chars_below)
  have ih: "c_string_from f (i + 1) m' = takeWhile (\<lambda>ch. ch \<noteq> NUL) cs"
    unfolding f_def using len by (rule Cons.IH)
  show ?case
    unfolding eq m using fi ih by simp
qed

lemma tokenize_body_string_limit:
  "isStr s \<Longrightarrow> isEscaped s \<or> (cur_c s \<noteq> DQUOTE \<and> cur_c s \<noteq> BACKSLASH) \<Longrightarrow>
   MAX_STR_SIZE \<le> strlen s \<Longrightarrow>
     tokenize_body F end_flag s =
       throw STRING_TOO_LONG
         (if isEscaped s \<and> cur_c s = CHR ''n'' then cur_line s - 1 else cur_line s)
         (cur_column s)"
  by (auto simp: tokenize_body_def tokenize_string_def string_add_def)

lemma appended_Nil: "isStr s \<Longrightarrow> \<not> isEscaped s \<Longrightarrow> appended s [] s"
  by (simp add: appended_def)

lemma appended_Cons: "appended s [v] s1 \<Longrightarrow> appended s1 vs s' \<Longrightarrow> appended s (v # vs) s'"
  by (simp add: appended_def)

lemma appended_from:
  "str s0 = str s \<Longrightarrow> strlen s0 = strlen s \<Longrightarrow> tokenList s0 = tokenList s \<Longrightarrow>
   isBlockComment s0 = isBlockComment s \<Longrightarrow> isComment s0 = isComment s \<Longrightarrow>
   isNumber s0 = isNumber s \<Longrightarrow> appended s0 vs s' \<Longrightarrow> appended s vs s'"
  by (simp add: appended_def)

lemma advance_fields [simp]:
  "str (advance s) = str s" "strlen (advance s) = strlen s" "tokenList (advance s) = tokenList s"
  "isStr (advance s) = isStr s" "isEscaped (advance s) = isEscaped s"
  "isBlockComment (advance s) = isBlockComment s" "isComment (advance s) = isComment s"
  "isNumber (advance s) = isNumber s"
  by (simp_all add: advance_def)

lemma tokenize_body_backslash:
  "isStr s \<Longrightarrow> \<not> isEscaped s \<Longrightarrow> cur_c s = BACKSLASH \<Longrightarrow>
     tokenize_body F end_flag s = Inr (s\<lparr>isEscaped := True\<rparr>)"
  by (simp add: tokenize_body_def tokenize_string_def)

lemma tokenize_loop_string_close:
  "isStr s \<Longrightarrow> \<not> isEscaped s \<Longrightarrow> \<not> isBlockComment s \<Longrightarrow> \<not> isComment s \<Longrightarrow>
   \<not> isNumber s \<Longrightarrow> strlen s \<le> MAX_STR_SIZE \<Longrightarrow>
   (case tokenize_loop F s [DQUOTE] of Inl u \<Rightarrow> Inl u | Inr s1 \<Rightarrow> Inr (tokenList s1)) =
     Inr (tokenList s @
           [TokenStr T_STRING (cur_line (advance s)) (cur_column (advance s))
              (c_string ((str s)(strlen s := NUL)))])"
  by (simp add: lexer_step_defs)

lemma next_pos_advance: "next_pos (pos_of s) = (cur_line (advance s), cur_column (advance s))"
  by (simp add: pos_of_def advance_def)

lemma tokenize_body_string_append:
  "isStr s \<Longrightarrow> isEscaped s \<or> (cur_c s \<noteq> DQUOTE \<and> cur_c s \<noteq> BACKSLASH) \<Longrightarrow>
   strlen s < MAX_STR_SIZE \<Longrightarrow>
     \<exists>s'. tokenize_body F end_flag s = Inr s'
       \<and> appended s [if isEscaped s then denoted (Escaped (cur_c s)) else cur_c s] s'
       \<and> pos_of s' =
           (if isEscaped s \<and> cur_c s = CHR ''n'' then cur_line s - 1 else cur_line s,
            cur_column s,
            if isEscaped s then denoted (Escaped (cur_c s)) else cur_c s)"
  by (auto simp: tokenize_body_def tokenize_string_def string_add_def add_char_def appended_def
                 pos_of_def)

lemma tokenize_loop_string_char:
  assumes "well_formed e" "isStr s" "\<not> isEscaped s" "strlen s < MAX_STR_SIZE"
  shows "\<exists>s1. tokenize_loop F s (spelling e @ rest) = tokenize_loop F s1 rest
           \<and> appended s [denoted e] s1 \<and> pos_of s1 = read_char (pos_of s) e"
proof (cases e)
  case (Plain b)
  let ?s0 = "(advance s)\<lparr>cur_c := b\<rparr>"
  from tokenize_body_string_append [of ?s0 F False] assms Plain
  obtain s1 where a: "tokenize_body F False ?s0 = Inr s1" and b: "appended ?s0 [b] s1"
    and c: "pos_of s1 = (cur_line ?s0, cur_column ?s0, b)"
    by auto
  have "appended s [b] s1"
    using b by (rule appended_from [rotated -1]) simp_all
  moreover have "tokenize_loop F s (spelling e @ rest) = tokenize_loop F s1 rest"
    using Plain by (simp only: spelling.simps append_Cons append_Nil tokenize_loop.simps a sum.case)
  moreover have "pos_of s1 = read_char (pos_of s) e"
    using c Plain by (simp add: next_pos_advance)
  ultimately show ?thesis using Plain by auto
next
  case (Escaped b)
  let ?s0 = "(advance s)\<lparr>cur_c := BACKSLASH\<rparr>"
  let ?s1 = "?s0\<lparr>isEscaped := True\<rparr>"
  let ?s2 = "(advance ?s1)\<lparr>cur_c := b\<rparr>"
  have a: "tokenize_body F False ?s0 = Inr ?s1"
    using assms by (intro tokenize_body_backslash) simp_all
  from tokenize_body_string_append [of ?s2 F False] assms
  obtain s3 where b: "tokenize_body F False ?s2 = Inr s3"
    and c: "appended ?s2 [denoted (Escaped b)] s3"
    and d: "pos_of s3 =
        (if b = CHR ''n'' then cur_line ?s2 - 1 else cur_line ?s2, cur_column ?s2,
         denoted (Escaped b))"
    by auto
  have "appended s [denoted (Escaped b)] s3"
    using c by (rule appended_from [rotated -1]) simp_all
  moreover have "tokenize_loop F s (spelling e @ rest) = tokenize_loop F s3 rest"
    using Escaped by (simp only: spelling.simps append_Cons append_Nil tokenize_loop.simps a b sum.case)
  moreover have "cur_line ?s2 = cur_line (advance s)" "cur_column ?s2 = cur_column (advance s) + 1"
    by (simp_all add: advance_def)
  then have "pos_of s3 = read_char (pos_of s) e"
    using d Escaped by (simp add: next_pos_advance)
  ultimately show ?thesis using Escaped by auto
qed

lemma tokenize_loop_literal:
  "list_all well_formed content \<Longrightarrow> isStr s \<Longrightarrow> \<not> isEscaped s \<Longrightarrow>
   strlen s + length content \<le> MAX_STR_SIZE \<Longrightarrow>
     \<exists>s'. tokenize_loop F s (concat (map spelling content) @ rest) = tokenize_loop F s' rest
       \<and> appended s (map denoted content) s'
       \<and> pos_of s' = foldl read_char (pos_of s) content"
proof (induction content arbitrary: s)
  case Nil
  then show ?case by (auto simp: appended_Nil)
next
  case (Cons e es)
  from Cons.prems have e: "well_formed e" and es: "list_all well_formed es"
    and len: "strlen s < MAX_STR_SIZE" by auto
  from tokenize_loop_string_char [OF e Cons.prems(2,3) len, of F "concat (map spelling es) @ rest"]
  obtain s1 where
    a: "tokenize_loop F s (spelling e @ concat (map spelling es) @ rest) =
          tokenize_loop F s1 (concat (map spelling es) @ rest)"
    and b: "appended s [denoted e] s1"
    and p: "pos_of s1 = read_char (pos_of s) e"
    by blast
  from b have s1: "isStr s1" "\<not> isEscaped s1" "strlen s1 = strlen s + 1"
    by (simp_all add: appended_def)
  from Cons.IH [OF es s1(1,2)] Cons.prems(4) s1(3)
  obtain s' where
    c: "tokenize_loop F s1 (concat (map spelling es) @ rest) = tokenize_loop F s' rest"
    and d: "appended s1 (map denoted es) s'"
    and q: "pos_of s' = foldl read_char (pos_of s1) es"
    by auto
  have "appended s (map denoted (e # es)) s'"
    using appended_Cons [OF b d] by simp
  moreover have "tokenize_loop F s (concat (map spelling (e # es)) @ rest) = tokenize_loop F s' rest"
    using a c by simp
  moreover have "pos_of s' = foldl read_char (pos_of s) (e # es)"
    using p q by simp
  ultimately show ?case by blast
qed

lemma tokenize_loop_string_overflow:
  assumes "well_formed e" "isStr s" "\<not> isEscaped s" "MAX_STR_SIZE \<le> strlen s"
  shows "tokenize_loop F s (spelling e @ rest) =
           throw STRING_TOO_LONG (fst (read_char (pos_of s) e)) (fst (snd (read_char (pos_of s) e)))"
proof (cases e)
  case (Plain b)
  let ?s0 = "(advance s)\<lparr>cur_c := b\<rparr>"
  have "tokenize_body F False ?s0 =
      throw STRING_TOO_LONG
        (if isEscaped ?s0 \<and> cur_c ?s0 = CHR ''n'' then cur_line ?s0 - 1 else cur_line ?s0)
        (cur_column ?s0)"
    using assms Plain by (intro tokenize_body_string_limit) simp_all
  then have a: "tokenize_body F False ?s0 =
      throw STRING_TOO_LONG (fst (read_char (pos_of s) e)) (fst (snd (read_char (pos_of s) e)))"
    using assms(3) Plain by (simp add: next_pos_advance)
  show ?thesis
    using Plain by (simp only: spelling.simps append_Cons append_Nil tokenize_loop.simps a sum.case)
next
  case (Escaped b)
  let ?s0 = "(advance s)\<lparr>cur_c := BACKSLASH\<rparr>"
  let ?s1 = "?s0\<lparr>isEscaped := True\<rparr>"
  let ?s2 = "(advance ?s1)\<lparr>cur_c := b\<rparr>"
  have a: "tokenize_body F False ?s0 = Inr ?s1"
    using assms by (intro tokenize_body_backslash) simp_all
  have "tokenize_body F False ?s2 =
      throw STRING_TOO_LONG
        (if isEscaped ?s2 \<and> cur_c ?s2 = CHR ''n'' then cur_line ?s2 - 1 else cur_line ?s2)
        (cur_column ?s2)"
    using assms by (intro tokenize_body_string_limit) simp_all
  moreover have "cur_line ?s2 = cur_line (advance s)" "cur_column ?s2 = cur_column (advance s) + 1"
    by (simp_all add: advance_def)
  ultimately have b: "tokenize_body F False ?s2 =
      throw STRING_TOO_LONG (fst (read_char (pos_of s) e)) (fst (snd (read_char (pos_of s) e)))"
    using Escaped by (simp add: next_pos_advance)
  show ?thesis
    using Escaped by (simp only: spelling.simps append_Cons append_Nil tokenize_loop.simps a b sum.case)
qed

lemma tokenize_literal:
  assumes "list_all well_formed content"
  shows "tokenize F garbage (DQUOTE # concat (map spelling content) @ [DQUOTE]) =
     (if length content \<le> MAX_STR_SIZE
      then Inr [TokenStr T_STRING (fst (quote_pos content)) (snd (quote_pos content))
                  (takeWhile (\<lambda>ch. ch \<noteq> NUL) (map denoted content))]
      else throw STRING_TOO_LONG (fst (char_pos content (MAX_STR_SIZE + 1)))
             (snd (char_pos content (MAX_STR_SIZE + 1))))"
proof -
  define s1 :: "'a tokenize_locals" where
    "s1 = (tokenize_init garbage)
            \<lparr>cur_c := DQUOTE, cur_column := 0, token1Index := T_DBLQUOTE, isStr := True\<rparr>"
  have s1: "isStr s1" "\<not> isEscaped s1" "\<not> isBlockComment s1" "\<not> isComment s1" "\<not> isNumber s1"
    "strlen s1 = 0" "str s1 = garbage" "tokenList s1 = []"
    and p1: "pos_of s1 = (0, 0, DQUOTE)"
    by (simp_all add: s1_def tokenize_init_def pos_of_def)
  have a: "tokenize_loop F (tokenize_init garbage) (DQUOTE # inp) = tokenize_loop F s1 inp"
    for inp
    unfolding s1_def by (rule tokenize_loop_string_start)
  show ?thesis
  proof (cases "length content \<le> MAX_STR_SIZE")
    case True
    from tokenize_loop_literal [OF assms s1(1,2), of F "[DQUOTE]"] s1 True
    obtain s2 where
      b: "tokenize_loop F s1 (concat (map spelling content) @ [DQUOTE]) =
            tokenize_loop F s2 [DQUOTE]"
      and c: "appended s1 (map denoted content) s2"
      and p: "pos_of s2 = foldl read_char (pos_of s1) content"
      by auto
    from c s1 True have s2: "isStr s2" "\<not> isEscaped s2" "\<not> isBlockComment s2" "\<not> isComment s2"
      "\<not> isNumber s2" "strlen s2 \<le> MAX_STR_SIZE"
      and v: "tokenList s2 = []" "str s2 = write_chars garbage 0 (map denoted content)"
        "strlen s2 = length content"
      by (simp_all add: appended_def)
    have "c_string ((write_chars garbage 0 (map denoted content))
                      (0 + length (map denoted content) := NUL)) =
            takeWhile (\<lambda>ch. ch \<noteq> NUL) (map denoted content)"
      unfolding c_string_def using True by (intro c_string_from_write_chars_nul) simp
    then have cs: "c_string ((str s2)(strlen s2 := NUL)) =
        takeWhile (\<lambda>ch. ch \<noteq> NUL) (map denoted content)"
      using v by simp
    have q: "quote_pos content = (cur_line (advance s2), cur_column (advance s2))"
      using p p1 by (simp add: quote_pos_def literal_pos_def next_pos_advance [symmetric])
    have "tokenize F garbage (DQUOTE # concat (map spelling content) @ [DQUOTE]) =
        Inr [TokenStr T_STRING (cur_line (advance s2)) (cur_column (advance s2))
               (takeWhile (\<lambda>ch. ch \<noteq> NUL) (map denoted content))]"
      unfolding tokenize_def append_Cons a b
      using tokenize_loop_string_close [OF s2, of F] cs v
      by (simp split: sum.splits)
    then show ?thesis using True q by simp
  next
    case False
    define pre where "pre = take MAX_STR_SIZE content"
    from False have "drop MAX_STR_SIZE content \<noteq> []" by simp
    then obtain x more where d: "drop MAX_STR_SIZE content = x # more"
      by (cases "drop MAX_STR_SIZE content") auto
    have content: "content = pre @ x # more"
      unfolding pre_def using d by (metis append_take_drop_id)
    have plen: "length pre = MAX_STR_SIZE"
      unfolding pre_def using False by simp
    have wf: "list_all well_formed pre" "well_formed x"
      using assms unfolding content by auto
    from tokenize_loop_literal
      [OF wf(1) s1(1,2), of F "spelling x @ concat (map spelling more) @ [DQUOTE]"] s1 plen
    obtain s2 where
      b: "tokenize_loop F s1 (concat (map spelling pre) @ spelling x @ concat (map spelling more) @ [DQUOTE]) =
            tokenize_loop F s2 (spelling x @ concat (map spelling more) @ [DQUOTE])"
      and c: "appended s1 (map denoted pre) s2"
      and p: "pos_of s2 = foldl read_char (pos_of s1) pre"
      by auto
    from c s1 plen have s2: "isStr s2" "\<not> isEscaped s2" "MAX_STR_SIZE \<le> strlen s2"
      by (simp_all add: appended_def)
    have e: "tokenize_loop F s2 (spelling x @ concat (map spelling more) @ [DQUOTE]) =
        throw STRING_TOO_LONG (fst (read_char (pos_of s2) x)) (fst (snd (read_char (pos_of s2) x)))"
      using wf(2) s2 by (rule tokenize_loop_string_overflow)
    have "take (MAX_STR_SIZE + 1) content = pre @ [x]"
      unfolding content using plen by simp
    then have q: "literal_pos (take (MAX_STR_SIZE + 1) content) = read_char (pos_of s2) x"
      using p p1 by (simp add: literal_pos_def)
    have "tokenize F garbage (DQUOTE # concat (map spelling content) @ [DQUOTE]) =
        throw STRING_TOO_LONG (fst (read_char (pos_of s2) x)) (fst (snd (read_char (pos_of s2) x)))"
      unfolding tokenize_def content append_Cons a
      using b e by simp
    then show ?thesis using False q by (simp add: char_pos_def)
  qed
qed

text \<open>
  C7. Inside a string literal every character of the content, written as itself or as
  an escape sequence, is appended to the working string after the same test: when
  1024 characters or more are accumulated the lexer raises \<open>StringTooLong\<close>, and
  otherwise it stores the character and the length grows by one. So a literal whose
  content is at most 1024 characters long (exactly 1024 included) lexes to one String
  token, which stands at the closing quote and holds the characters denoted up to the
  first NUL, and a literal with more raises \<open>StringTooLong\<close> where its 1025th character
  is appended. For a content without quote, backslash, NUL and newline the token
  holds the content at line 0 and the column after it, and the error stands at
  column 1025.
\<close>

theorem string_literal_limit:
  "(list_all well_formed content \<longrightarrow>
      tokenize F garbage (DQUOTE # concat (map spelling content) @ [DQUOTE]) =
        (if length content \<le> 1024
         then Inr [TokenStr T_STRING (fst (quote_pos content)) (snd (quote_pos content))
                     (takeWhile (\<lambda>ch. ch \<noteq> NUL) (map denoted content))]
         else throw STRING_TOO_LONG (fst (char_pos content 1025)) (snd (char_pos content 1025))))
   \<and> (DQUOTE \<notin> set plain \<and> BACKSLASH \<notin> set plain \<and> NUL \<notin> set plain \<and> NEWLINE \<notin> set plain \<longrightarrow>
        tokenize F garbage (DQUOTE # plain @ [DQUOTE]) =
          (if length plain \<le> 1024
           then Inr [TokenStr T_STRING 0 (int (length plain) + 1) plain]
           else throw STRING_TOO_LONG 0 1025))
   \<and> (isStr s \<and> (isEscaped s \<or> (cur_c s \<noteq> DQUOTE \<and> cur_c s \<noteq> BACKSLASH)) \<longrightarrow>
        (if 1024 \<le> strlen s
         then tokenize_body F end_flag s =
                throw STRING_TOO_LONG
                  (if isEscaped s \<and> cur_c s = CHR ''n'' then cur_line s - 1 else cur_line s)
                  (cur_column s)
         else \<exists>s'. tokenize_body F end_flag s = Inr s'
                \<and> strlen s' = strlen s + 1
                \<and> str s' = (str s)(strlen s :=
                              if isEscaped s then denoted (Escaped (cur_c s)) else cur_c s)))"
proof (intro conjI impI)
  assume "list_all well_formed content"
  from tokenize_literal [OF this, of F garbage]
  show "tokenize F garbage (DQUOTE # concat (map spelling content) @ [DQUOTE]) =
        (if length content \<le> 1024
         then Inr [TokenStr T_STRING (fst (quote_pos content)) (snd (quote_pos content))
                     (takeWhile (\<lambda>ch. ch \<noteq> NUL) (map denoted content))]
         else throw STRING_TOO_LONG (fst (char_pos content 1025)) (snd (char_pos content 1025)))"
    by (simp add: MAX_STR_SIZE_def)
next
  assume "DQUOTE \<notin> set plain \<and> BACKSLASH \<notin> set plain \<and> NUL \<notin> set plain \<and> NEWLINE \<notin> set plain"
  then show "tokenize F garbage (DQUOTE # plain @ [DQUOTE]) =
          (if length plain \<le> 1024
           then Inr [TokenStr T_STRING 0 (int (length plain) + 1) plain]
           else throw STRING_TOO_LONG 0 1025)"
    using tokenize_string_literal [of plain F garbage] by (simp add: MAX_STR_SIZE_def)
next
  assume a: "isStr s \<and> (isEscaped s \<or> (cur_c s \<noteq> DQUOTE \<and> cur_c s \<noteq> BACKSLASH))"
  show "if 1024 \<le> strlen s
         then tokenize_body F end_flag s =
                throw STRING_TOO_LONG
                  (if isEscaped s \<and> cur_c s = CHR ''n'' then cur_line s - 1 else cur_line s)
                  (cur_column s)
         else \<exists>s'. tokenize_body F end_flag s = Inr s'
                \<and> strlen s' = strlen s + 1
                \<and> str s' = (str s)(strlen s :=
                              if isEscaped s then denoted (Escaped (cur_c s)) else cur_c s)"
  proof (cases "1024 \<le> strlen s")
    case True
    then show ?thesis
      using a tokenize_body_string_limit [of s F end_flag] by (simp add: MAX_STR_SIZE_def)
  next
    case False
    then have "strlen s < MAX_STR_SIZE" by (simp add: MAX_STR_SIZE_def)
    from tokenize_body_string_append [of s F end_flag] a this
    obtain s' where "tokenize_body F end_flag s = Inr s'"
      "appended s [if isEscaped s then denoted (Escaped (cur_c s)) else cur_c s] s'"
      by blast
    then show ?thesis using False by (auto simp: appended_def)
  qed
qed

theorem string_literal_limit_witness:
  "list_all well_formed [Plain (CHR ''a''), Escaped (CHR ''n''), Escaped DQUOTE, Plain (CHR ''b'')]
   \<and> tokenize real_ops (\<lambda>i. NUL)
        (DQUOTE # concat (map spelling
           [Plain (CHR ''a''), Escaped (CHR ''n''), Escaped DQUOTE, Plain (CHR ''b'')])
         @ [DQUOTE]) =
       Inr [TokenStr T_STRING 0 3 [CHR ''a'', NEWLINE, DQUOTE, CHR ''b'']]
   \<and> list_all well_formed (replicate 1025 (Escaped (CHR ''t'')))
   \<and> (\<exists>l c. tokenize real_ops (\<lambda>i. NUL)
               (DQUOTE # concat (map spelling (replicate 1025 (Escaped (CHR ''t'')))) @ [DQUOTE]) =
             throw STRING_TOO_LONG l c)
   \<and> DQUOTE \<notin> set ''abc'' \<and> BACKSLASH \<notin> set ''abc'' \<and> NUL \<notin> set ''abc''
   \<and> NEWLINE \<notin> set ''abc''
   \<and> tokenize real_ops (\<lambda>i. NUL) (DQUOTE # ''abc'' @ [DQUOTE]) =
       Inr [TokenStr T_STRING 0 4 ''abc'']
   \<and> isStr ((tokenize_init (\<lambda>i. NUL) :: real tokenize_locals)
              \<lparr>isStr := True, isEscaped := True, strlen := 1024, cur_c := CHR ''n''\<rparr>)
   \<and> isEscaped ((tokenize_init (\<lambda>i. NUL) :: real tokenize_locals)
              \<lparr>isStr := True, isEscaped := True, strlen := 1024, cur_c := CHR ''n''\<rparr>)
   \<and> tokenize_body real_ops False
        ((tokenize_init (\<lambda>i. NUL) :: real tokenize_locals)
              \<lparr>isStr := True, isEscaped := True, strlen := 1024, cur_c := CHR ''n''\<rparr>) =
       throw STRING_TOO_LONG (- 1) (- 1)"
proof -
  let ?content = "[Plain (CHR ''a''), Escaped (CHR ''n''), Escaped DQUOTE, Plain (CHR ''b'')]"
  let ?long = "replicate 1025 (Escaped (CHR ''t''))"
  let ?s = "(tokenize_init (\<lambda>i. NUL) :: real tokenize_locals)
              \<lparr>isStr := True, isEscaped := True, strlen := 1024, cur_c := CHR ''n''\<rparr>"
  have a: "list_all well_formed ?content"
    by simp
  have b: "list_all well_formed ?long"
    by (simp add: list_all_iff)
  have c: "DQUOTE \<notin> set ''abc''" "BACKSLASH \<notin> set ''abc''" "NUL \<notin> set ''abc''"
    "NEWLINE \<notin> set ''abc''"
    by simp_all
  have d: "isStr ?s" "isEscaped ?s" "strlen ?s = 1024" "cur_c ?s = CHR ''n''"
    "cur_line ?s = 0" "cur_column ?s = - 1"
    by (simp_all add: tokenize_init_def)
  have q: "quote_pos ?content = (0, 3)"
    by (simp add: quote_pos_def literal_pos_def)
  have "tokenize real_ops (\<lambda>i. NUL) (DQUOTE # concat (map spelling ?content) @ [DQUOTE]) =
             Inr [TokenStr T_STRING 0 3 [CHR ''a'', NEWLINE, DQUOTE, CHR ''b'']]"
    using string_literal_limit [where content = ?content and F = real_ops and garbage = "\<lambda>i. NUL"] a
    unfolding q by simp
  moreover have "\<exists>l c. tokenize real_ops (\<lambda>i. NUL) (DQUOTE # concat (map spelling ?long) @ [DQUOTE]) =
             throw STRING_TOO_LONG l c"
    using string_literal_limit [where content = ?long and F = real_ops and garbage = "\<lambda>i. NUL"] b
    by simp
  moreover have "tokenize real_ops (\<lambda>i. NUL) (DQUOTE # ''abc'' @ [DQUOTE]) =
       Inr [TokenStr T_STRING 0 4 ''abc'']"
    using string_literal_limit [where plain = "''abc''" and F = real_ops and garbage = "\<lambda>i. NUL"] c
    by simp
  moreover have "tokenize_body real_ops False ?s = throw STRING_TOO_LONG (- 1) (- 1)"
    using string_literal_limit [where s = ?s and F = real_ops and end_flag = False] d
    by simp
  ultimately show ?thesis
    using a b c d(1,2) by (simp only: simp_thms)
qed

text \<open>
  The claim as stated fails at exactly 1024 characters: the literal is emitted as a
  String token.
\<close>

theorem string_1024_counterexample:
  "tokenize real_ops (\<lambda>i. NUL) (DQUOTE # replicate 1024 (CHR ''a'') @ [DQUOTE]) =
     Inr [TokenStr T_STRING 0 1025 (replicate 1024 (CHR ''a''))]
   \<and> length (replicate 1024 (CHR ''a'')) = 1024"
proof -
  have b: "DQUOTE \<notin> set (replicate 1024 (CHR ''a''))"
    "BACKSLASH \<notin> set (replicate 1024 (CHR ''a''))"
    "NUL \<notin> set (replicate 1024 (CHR ''a''))"
    "NEWLINE \<notin> set (replicate 1024 (CHR ''a''))"
    by simp_all
  from tokenize_string_literal [OF b, of real_ops "\<lambda>i. NUL"] show ?thesis
    by (simp add: MAX_STR_SIZE_def)
qed

section \<open>Operator precedence\<close>

text \<open>
  C1. For the source text \<open>2+3*4\<close> the AST Builder produces one node: an additive binop
  whose left child is the literal 2 and whose right child is the multiplicative binop
  for \<open>3*4\<close>. It is not the tree of \<open>(2+3)*4\<close>. The multiplicative pass over the level
  has folded \<open>3*4\<close> and left \<open>+\<close> alone before the additive pass starts.
\<close>

theorem parse_2_plus_3_times_4:
  "(case tokenize F garbage ''2+3*4'' of Inl u \<Rightarrow> Inl u | Inr tokens \<Rightarrow> constructAST tokens) =
     Inr [NodeExpr (ExprBinop (ExprInt 2 0 1)
                      (ExprBinop (ExprInt 3 0 3) (ExprInt 4 0 5) MULT ET_INT 0 4)
                      ADD ET_INT 0 2)]
   \<and> (case tokenize F garbage ''2+3*4'' of Inl u \<Rightarrow> Inl u | Inr tokens \<Rightarrow> constructAST tokens) \<noteq>
     Inr [NodeExpr (ExprBinop (ExprBinop (ExprInt 2 0 1) (ExprInt 3 0 3) ADD ET_INT 0 2)
                      (ExprInt 4 0 5)
                      MULT ET_INT 0 4)]
   \<and> precedence_pass pass1_op []
         [NodeExpr (ExprInt 2 0 1), NodeToken (Token T_PLUS 0 2), NodeExpr (ExprInt 3 0 3),
          NodeToken (Token T_STAR 0 4), NodeExpr (ExprInt 4 0 5)] =
       Inr [NodeExpr (ExprInt 2 0 1), NodeToken (Token T_PLUS 0 2),
            NodeExpr (ExprBinop (ExprInt 3 0 3) (ExprInt 4 0 5) MULT ET_INT 0 4 :: 'f Expr)]"
  by (simp add: lexer_defs c_string_from_unfold ast_defs)

section \<open>Bracket grouping is balanced-or-error\<close>

subsection \<open>The cases of \<open>condenseAST\<close>\<close>

lemma condenseAST_open:
  "opening_kind (type t) = Some k \<Longrightarrow>
   condenseAST pre erased acc (NodeToken t # rest) ty =
     (case condenseAST (pre @ acc @ [NodeToken t]) False [] rest k of
        Inl u \<Rightarrow> Inl u
      | Inr (nodeList, rest1) \<Rightarrow>
          (case rest1 of
             [] \<Rightarrow> Inl UndefinedBehaviour
           | closing # rest2 \<Rightarrow>
               condenseAST pre (erased \<or> acc = []) (acc @ [group_node k nodeList]) rest2 ty))"
  by (simp add: condenseAST.simps)

lemma condenseAST_close:
  "opening_kind (type t) = None \<Longrightarrow> closing_kind (type t) = Some k \<Longrightarrow>
   condenseAST pre erased acc (NodeToken t # rest) ty =
     (if ty = k then
        (if erased then Inl UndefinedBehaviour
         else (case process acc of
                 Inl u \<Rightarrow> Inl u
               | Inr outputList \<Rightarrow> Inr (outputList, NodeToken t # rest)))
      else throw (INVALID_CLOSING k) (line t) (column t))"
  by (simp add: condenseAST.simps)

lemma condenseAST_other:
  "\<not> is_bracket x \<Longrightarrow>
     condenseAST pre erased acc (x # rest) ty = condenseAST pre erased (acc @ [x]) rest ty"
  by (cases x) (auto simp: condenseAST.simps split: option.splits)

lemma condenseAST_end:
  "condenseAST pre erased acc [] ty =
     (if ty = NT_NONE then
        (if erased then Inl UndefinedBehaviour
         else (case process acc of Inl u \<Rightarrow> Inl u | Inr outputList \<Rightarrow> Inr (outputList, [])))
      else if is_group_kind ty then
        (if pre @ acc = [] then Inl UndefinedBehaviour
         else throw (MISSING_CLOSING ty) (Node_line (last (pre @ acc)))
                (Node_column (last (pre @ acc))))
      else Inr ([], []))"
  by (simp add: condenseAST.simps)

lemma condenseAST_cases_induct [case_names End Open Close Other]:
  assumes End: "\<And>pre erased acc ty. P pre erased acc [] ty"
    and Open: "\<And>pre erased acc t rest ty k.
      opening_kind (type t) = Some k \<Longrightarrow>
      P (pre @ acc @ [NodeToken t]) False [] rest k \<Longrightarrow>
      (\<And>nodeList closing rest2.
          condenseAST (pre @ acc @ [NodeToken t]) False [] rest k = Inr (nodeList, closing # rest2) \<Longrightarrow>
          P pre (erased \<or> acc = []) (acc @ [group_node k nodeList]) rest2 ty) \<Longrightarrow>
      P pre erased acc (NodeToken t # rest) ty"
    and Close: "\<And>pre erased acc t rest ty k.
      opening_kind (type t) = None \<Longrightarrow> closing_kind (type t) = Some k \<Longrightarrow>
      P pre erased acc (NodeToken t # rest) ty"
    and Other: "\<And>pre erased acc x rest ty.
      \<not> is_bracket x \<Longrightarrow> P pre erased (acc @ [x]) rest ty \<Longrightarrow> P pre erased acc (x # rest) ty"
  shows "P pre erased acc xs ty"
proof (induction pre erased acc xs ty rule: condenseAST.induct)
  case (1 pre erased acc ty)
  show ?case by (rule End)
next
  case (2 pre erased acc x rest ty)
  show ?case
  proof (cases "is_bracket x")
    case False
    then have "P pre erased (acc @ [x]) rest ty"
      using "2.IH"(1,4,5,6,7) by (cases x) auto
    with False show ?thesis by (rule Other)
  next
    case True
    then obtain t where x: "x = NodeToken t" by (cases x) auto
    show ?thesis
    proof (cases "opening_kind (type t)")
      case (Some k)
      have "P pre erased acc (NodeToken t # rest) ty"
      proof (rule Open [OF Some])
        show "P (pre @ acc @ [NodeToken t]) False [] rest k"
          using "2.IH"(2) [OF x Some] x by simp
      next
        fix nodeList closing rest2
        assume "condenseAST (pre @ acc @ [NodeToken t]) False [] rest k = Inr (nodeList, closing # rest2)"
        then show "P pre (erased \<or> acc = []) (acc @ [group_node k nodeList]) rest2 ty"
          using "2.IH"(3) [OF x Some, of "(nodeList, closing # rest2)" nodeList "closing # rest2" closing rest2] x
          by simp
      qed
      then show ?thesis using x by simp
    next
      case None
      with True x obtain k where "closing_kind (type t) = Some k" by auto
      with None have "P pre erased acc (NodeToken t # rest) ty" by (rule Close)
      then show ?thesis using x by simp
    qed
  qed
qed

subsection \<open>The cases of the two scans\<close>

lemma bracket_scan_open:
  "opening_kind (type t) = Some k \<Longrightarrow>
     bracket_scan stack (NodeToken t # xs) = bracket_scan (k # stack) xs"
  by simp

lemma bracket_scan_other:
  "\<not> is_bracket x \<Longrightarrow> bracket_scan stack (x # xs) = bracket_scan stack xs"
  by (cases x) (auto split: option.splits)

lemma bracket_scan_close:
  "opening_kind (type t) = None \<Longrightarrow> closing_kind (type t) = Some k \<Longrightarrow>
     bracket_scan stack (NodeToken t # xs) =
       (case stack of
          [] \<Rightarrow> InvalidClosing k (line t) (column t)
        | k' # ks \<Rightarrow> if k' = k then bracket_scan ks xs else InvalidClosing k (line t) (column t))"
  by simp

lemma group_failure_open:
  "opening_kind (type t) = Some k \<Longrightarrow>
     group_failure G e acc (NodeToken t # xs) = group_failure ((k, e \<or> acc = [], acc) # G) False [] xs"
  by simp

lemma group_failure_other:
  "\<not> is_bracket x \<Longrightarrow> group_failure G e acc (x # xs) = group_failure G e (acc @ [x]) xs"
  by (cases x) (auto split: option.splits)

lemma group_failure_close_empty:
  "opening_kind (type t) = None \<Longrightarrow> closing_kind (type t) = Some k \<Longrightarrow>
     group_failure [] e acc (NodeToken t # xs) = None"
  by simp

lemma group_failure_close:
  "opening_kind (type t) = None \<Longrightarrow> closing_kind (type t) = Some k \<Longrightarrow>
     group_failure ((k', e', acc') # G) e acc (NodeToken t # xs) =
       (if k' = k then
          (case resolve e acc of
             Inl u \<Rightarrow> Some u
           | Inr outputList \<Rightarrow> group_failure G e' (acc' @ [group_node k outputList]) xs)
        else None)"
  by simp

lemma opening_kind_group: "opening_kind t = Some k \<Longrightarrow> is_group_kind k"
  by (auto simp: opening_kind_def is_group_kind_def split: if_splits)

lemma closing_kind_group: "closing_kind t = Some k \<Longrightarrow> is_group_kind k"
  by (auto simp: closing_kind_def is_group_kind_def split: if_splits)

lemma not_group_kind_none [simp]: "\<not> is_group_kind NT_NONE"
  by (simp add: is_group_kind_def)

lemma group_kind_not_none: "is_group_kind k \<Longrightarrow> k \<noteq> NT_NONE"
  by (auto simp: is_group_kind_def)

lemma resolve_binop_failure: "resolve_binop opType l c x y = Inl u \<Longrightarrow> is_binop_failure u"
  by (auto simp: resolve_binop_def split: prod.splits if_splits)

lemma precedence_pass_failure: "precedence_pass ops seen xs = Inl u \<Longrightarrow> is_binop_failure u"
proof (induction ops seen xs rule: precedence_pass.induct)
  case (1 ops seen)
  then show ?case by simp
next
  case (2 ops seen x rest)
  then show ?case
    by (auto split: Node.splits option.splits list.splits if_splits sum.splits
             dest: resolve_binop_failure)
qed

lemma process_failure: "process xs = Inl u \<Longrightarrow> is_binop_failure u"
  by (auto simp: process_def split: sum.splits dest: precedence_pass_failure)

lemma resolve_failure: "resolve e acc = Inl u \<Longrightarrow> u = UndefinedBehaviour \<or> is_binop_failure u"
  by (auto simp: resolve_def split: if_splits dest: process_failure)

lemma group_failure_kinds:
  "group_failure G e acc xs = Some u \<Longrightarrow> u = UndefinedBehaviour \<or> is_binop_failure u"
proof (induction xs arbitrary: G e acc)
  case Nil
  then show ?case
    by (auto split: list.splits sum.splits dest: resolve_failure)
next
  case (Cons x xs)
  show ?case
  proof (cases "is_bracket x")
    case False
    with Cons show ?thesis
      by (simp add: group_failure_other del: group_failure.simps)
  next
    case True
    then obtain t where x: "x = NodeToken t" by (cases x) auto
    show ?thesis
    proof (cases "opening_kind (type t)")
      case (Some k)
      with Cons x show ?thesis
        by (simp add: group_failure_open del: group_failure.simps)
    next
      case None
      with True x obtain k where k: "closing_kind (type t) = Some k" by auto
      show ?thesis
      proof (cases G)
        case Nil
        with Cons.prems x None k show ?thesis by simp
      next
        case (Cons g gs)
        obtain k' e' acc' where g: "g = (k', e', acc')" by (cases g)
        from Cons.prems x None k Cons g Cons.IH show ?thesis
          by (auto simp: group_failure_close simp del: group_failure.simps
                   split: if_splits sum.splits dest: resolve_failure)
      qed
    qed
  qed
qed

subsection \<open>What a call returns\<close>

lemma condenseAST_suffix:
  "condenseAST pre erased acc xs ty = Inr (out, r) \<Longrightarrow> \<exists>ys. xs = ys @ r"
proof (induction pre erased acc xs ty arbitrary: out r rule: condenseAST_cases_induct)
  case (End pre erased acc ty)
  then show ?case
    by (auto simp: condenseAST_end split: if_splits sum.splits)
next
  case (Open pre erased acc t rest ty k)
  from Open.prems Open.hyps obtain nodeList closing rest2 where
    a: "condenseAST (pre @ acc @ [NodeToken t]) False [] rest k = Inr (nodeList, closing # rest2)" and
    b: "condenseAST pre (erased \<or> acc = []) (acc @ [group_node k nodeList]) rest2 ty = Inr (out, r)"
    by (auto simp: condenseAST_open split: sum.splits list.splits)
  from Open.IH(1) [OF a] obtain ys where "rest = ys @ closing # rest2" by blast
  moreover from Open.IH(2) [OF a b] obtain zs where "rest2 = zs @ r" by blast
  ultimately have "NodeToken t # rest = (NodeToken t # ys @ closing # zs) @ r" by simp
  then show ?case by blast
next
  case (Close pre erased acc t rest ty k)
  then show ?case
    by (auto simp: condenseAST_close split: if_splits sum.splits)
next
  case (Other pre erased acc x rest ty)
  from Other.prems Other.hyps have "condenseAST pre erased (acc @ [x]) rest ty = Inr (out, r)"
    by (simp add: condenseAST_other)
  from Other.IH [OF this] obtain ys where "rest = ys @ r" by blast
  then have "x # rest = (x # ys) @ r" by simp
  then show ?case by blast
qed

lemma agrees_shift:
  assumes "\<And>S. bracket_scan S ys = bracket_scan S xs"
    and "\<And>G. group_failure G erased' acc' ys = group_failure G erased acc xs"
  shows "agrees ty erased acc xs r \<Longrightarrow> agrees ty erased' acc' ys r"
  using assms by (auto simp: agrees_def split: sum.splits prod.splits if_splits)

lemma condenseAST_agrees:
  "ty = NT_NONE \<or> (is_group_kind ty \<and> pre @ acc \<noteq> []) \<Longrightarrow>
     agrees ty erased acc xs (condenseAST pre erased acc xs ty)"
proof (induction pre erased acc xs ty rule: condenseAST_cases_induct)
  case (End pre erased acc ty)
  then show ?case
    by (auto simp: condenseAST_end agrees_def open_stack_def open_groups_def group_kind_not_none
                   resolve_def
             split: sum.splits dest: process_failure)
next
  case (Open pre erased acc t rest ty k)
  have k: "is_group_kind k" "k \<noteq> NT_NONE"
    using Open.hyps opening_kind_group group_kind_not_none by auto
  have nested: "agrees k False [] rest (condenseAST (pre @ acc @ [NodeToken t]) False [] rest k)"
    using k by (intro Open.IH(1)) simp
  have sc: "\<And>S. bracket_scan S (NodeToken t # rest) = bracket_scan (k # S) rest"
    using Open.hyps by (simp add: bracket_scan_open del: bracket_scan.simps)
  have gf: "\<And>G. group_failure G erased acc (NodeToken t # rest) =
      group_failure ((k, erased \<or> acc = [], acc) # G) False [] rest"
    using Open.hyps by (simp add: group_failure_open del: group_failure.simps)
  show ?case
  proof (cases "condenseAST (pre @ acc @ [NodeToken t]) False [] rest k")
    case (Inl u)
    with nested k have
      "((u = UndefinedBehaviour \<or> is_binop_failure u)
          \<and> (\<forall>G around. group_failure ((k, around) # G) False [] rest = Some u))
       \<or> ((\<forall>S. raises (bracket_scan (k # S) rest) u)
            \<and> (\<forall>G around. group_failure ((k, around) # G) False [] rest = None))"
      by (simp add: agrees_def open_stack_def open_groups_def)
    then have "agrees ty erased acc (NodeToken t # rest) (Inl u)"
      unfolding agrees_def sc gf by auto
    then show ?thesis
      using Inl Open.hyps by (simp add: condenseAST_open)
  next
    case (Inr p)
    obtain nodeList rest1 where p: "p = (nodeList, rest1)" by (cases p)
    from nested Inr p k obtain t' rest2 where
      r1: "rest1 = NodeToken t' # rest2" and
      sc2: "\<And>S. bracket_scan (k # S) rest = bracket_scan S rest2" and
      gf2: "\<And>G erased' acc'. group_failure ((k, erased', acc') # G) False [] rest =
                       group_failure G erased' (acc' @ [group_node k nodeList]) rest2"
      by (auto simp: agrees_def)
    have call: "condenseAST (pre @ acc @ [NodeToken t]) False [] rest k =
        Inr (nodeList, NodeToken t' # rest2)"
      using Inr p r1 by simp
    have "agrees ty (erased \<or> acc = []) (acc @ [group_node k nodeList]) rest2
        (condenseAST pre (erased \<or> acc = []) (acc @ [group_node k nodeList]) rest2 ty)"
      using Open.prems by (intro Open.IH(2) [OF call]) auto
    moreover have "\<And>S. bracket_scan S (NodeToken t # rest) = bracket_scan S rest2"
      using sc sc2 by simp
    moreover have "\<And>G. group_failure G erased acc (NodeToken t # rest) =
        group_failure G (erased \<or> acc = []) (acc @ [group_node k nodeList]) rest2"
      using gf gf2 by simp
    ultimately have "agrees ty erased acc (NodeToken t # rest)
        (condenseAST pre (erased \<or> acc = []) (acc @ [group_node k nodeList]) rest2 ty)"
      by (rule agrees_shift [rotated 2])
    then show ?thesis
      using call Open.hyps by (simp add: condenseAST_open)
  qed
next
  case (Close pre erased acc t rest ty k)
  have k: "is_group_kind k" "k \<noteq> NT_NONE"
    using Close.hyps closing_kind_group group_kind_not_none by auto
  show ?case
    using Close.hyps k
    by (auto simp: condenseAST_close agrees_def open_stack_def open_groups_def resolve_def
                   bracket_scan_close group_failure_close group_failure_close_empty
             simp del: bracket_scan.simps group_failure.simps
             split: sum.splits dest: process_failure)
next
  case (Other pre erased acc x rest ty)
  have "agrees ty erased (acc @ [x]) rest (condenseAST pre erased (acc @ [x]) rest ty)"
    using Other.prems by (intro Other.IH) auto
  moreover have "\<And>S. bracket_scan S (x # rest) = bracket_scan S rest"
    using Other.hyps by (simp add: bracket_scan_other del: bracket_scan.simps)
  moreover have "\<And>G. group_failure G erased acc (x # rest) = group_failure G erased (acc @ [x]) rest"
    using Other.hyps by (simp add: group_failure_other del: group_failure.simps)
  ultimately have "agrees ty erased acc (x # rest) (condenseAST pre erased (acc @ [x]) rest ty)"
    by (rule agrees_shift [rotated 2])
  then show ?case
    using Other.hyps by (simp add: condenseAST_other)
qed

text \<open>A call inside a group returns at a closing bracket of its kind.\<close>

lemma condenseAST_returns_closing:
  assumes "is_group_kind k" "pre @ acc \<noteq> []"
    and "condenseAST pre erased acc xs k = Inr (nodeList, rest1)"
  shows "\<exists>t rest2. rest1 = NodeToken t # rest2 \<and> opening_kind (type t) = None
           \<and> closing_kind (type t) = Some k"
proof -
  have "agrees k erased acc xs (condenseAST pre erased acc xs k)"
    using assms(1,2) by (intro condenseAST_agrees) simp
  with assms(1,3) show ?thesis
    by (auto simp: agrees_def group_kind_not_none)
qed

subsection \<open>The position of a missing closing bracket\<close>

lemma not_missing_INVALID_CLOSING [simp]: "\<not> is_missing (INVALID_CLOSING k)"
  by (cases k) simp_all

lemma is_missing_MISSING_CLOSING: "is_group_kind k \<Longrightarrow> is_missing (MISSING_CLOSING k)"
  by (auto simp: is_group_kind_def)

lemma binop_failure_not_missing:
  "is_binop_failure (Throw (CompilerException e l c)) \<Longrightarrow> \<not> is_missing e"
  by auto

lemma condenseAST_missing_position:
  "condenseAST pre erased acc xs ty = throw e l c \<Longrightarrow> is_missing e \<Longrightarrow>
   xs = [] \<or> \<not> is_closing (last xs) \<Longrightarrow>
   ty = NT_NONE \<or> (is_group_kind ty \<and> pre @ acc \<noteq> []) \<Longrightarrow>
     l = Node_line (last (pre @ acc @ xs)) \<and> c = Node_column (last (pre @ acc @ xs))"
proof (induction pre erased acc xs ty rule: condenseAST_cases_induct)
  case (End pre erased acc ty)
  then show ?case
    by (auto simp: condenseAST_end split: if_splits sum.splits dest!: process_failure)
next
  case (Open pre erased acc t rest ty k)
  have k: "is_group_kind k" "k \<noteq> NT_NONE"
    using Open.hyps opening_kind_group group_kind_not_none by auto
  have inv: "k = NT_NONE \<or> (is_group_kind k \<and> (pre @ acc @ [NodeToken t]) @ [] \<noteq> [])"
    using k by simp
  have eo: "rest = [] \<or> \<not> is_closing (last rest)"
    using Open.prems(3) by (cases rest) auto
  show ?case
  proof (cases "condenseAST (pre @ acc @ [NodeToken t]) False [] rest k")
    case (Inl u)
    with Open.prems(1) Open.hyps
    have "condenseAST (pre @ acc @ [NodeToken t]) False [] rest k = throw e l c"
      by (simp add: condenseAST_open)
    from Open.IH(1) [OF this Open.prems(2) eo inv] show ?thesis by simp
  next
    case (Inr p)
    obtain nodeList rest1 where p: "p = (nodeList, rest1)" by (cases p)
    from condenseAST_returns_closing [OF k(1), of "pre @ acc @ [NodeToken t]" "[]" False rest nodeList rest1]
      Inr p
    obtain t' rest2 where
      r1: "rest1 = NodeToken t' # rest2" and cl: "closing_kind (type t') = Some k"
      by auto
    have call: "condenseAST (pre @ acc @ [NodeToken t]) False [] rest k =
        Inr (nodeList, NodeToken t' # rest2)"
      using Inr p r1 by simp
    from condenseAST_suffix [OF call] obtain ys where ys: "rest = ys @ NodeToken t' # rest2"
      by blast
    have ne: "rest2 \<noteq> []"
    proof
      assume "rest2 = []"
      with ys have "last (NodeToken t # rest) = NodeToken t'" by simp
      with Open.prems(3) cl show False by simp
    qed
    then have l2: "last rest2 = last (NodeToken t # rest)"
      using ys by simp
    have res: "condenseAST pre (erased \<or> acc = []) (acc @ [group_node k nodeList]) rest2 ty =
        throw e l c"
      using Open.prems(1) Open.hyps call by (simp add: condenseAST_open)
    have "l = Node_line (last (pre @ (acc @ [group_node k nodeList]) @ rest2))
        \<and> c = Node_column (last (pre @ (acc @ [group_node k nodeList]) @ rest2))"
      using Open.prems(3,4) ne l2
      by (intro Open.IH(2) [OF call res Open.prems(2)]) auto
    then show ?thesis using ne l2 by simp
  qed
next
  case (Close pre erased acc t rest ty k)
  then show ?case
    by (auto simp: condenseAST_close split: if_splits sum.splits dest!: process_failure)
next
  case (Other pre erased acc x rest ty)
  have res: "condenseAST pre erased (acc @ [x]) rest ty = throw e l c"
    using Other.prems(1) Other.hyps by (simp add: condenseAST_other)
  have eo: "rest = [] \<or> \<not> is_closing (last rest)"
    using Other.prems(3) by (cases rest) auto
  have "l = Node_line (last (pre @ (acc @ [x]) @ rest)) \<and> c = Node_column (last (pre @ (acc @ [x]) @ rest))"
    using Other.prems(4) by (intro Other.IH [OF res Other.prems(2) eo]) auto
  then show ?case by simp
qed

subsection \<open>Sequences without operators\<close>

lemma precedence_pass_no_operator:
  "ops = pass1_op \<or> ops = pass2_op \<Longrightarrow> list_all (\<lambda>x. \<not> is_operator x) xs \<Longrightarrow>
     precedence_pass ops seen xs = Inr (seen @ xs)"
proof (induction xs arbitrary: seen)
  case Nil
  then show ?case by simp
next
  case (Cons x xs)
  from Cons.prems have "precedence_pass ops seen (x # xs) = precedence_pass ops (seen @ [x]) xs"
    by (cases x) auto
  with Cons show ?case by simp
qed

lemma process_no_operator: "list_all (\<lambda>x. \<not> is_operator x) xs \<Longrightarrow> process xs = Inr xs"
  by (simp add: process_def precedence_pass_no_operator)

lemma group_node_not_operator [simp]: "\<not> is_operator (group_node k nodeList)"
proof (cases k)
  case NT_PAREN_GROUP
  show ?thesis
  proof (cases nodeList)
    case Nil
    with NT_PAREN_GROUP show ?thesis by simp
  next
    case (Cons n ns)
    with NT_PAREN_GROUP show ?thesis by (cases n; cases ns) simp_all
  qed
qed simp_all

lemma condenseAST_no_operator:
  "list_all (\<lambda>x. \<not> is_operator x) (acc @ xs) \<Longrightarrow>
     \<not> binop_failed (condenseAST pre erased acc xs ty)"
proof (induction pre erased acc xs ty rule: condenseAST_cases_induct)
  case (End pre erased acc ty)
  then show ?case
    by (cases ty) (simp_all add: condenseAST_end process_no_operator is_group_kind_def)
next
  case (Open pre erased acc t rest ty k)
  have k: "is_group_kind k"
    using Open.hyps opening_kind_group by auto
  have nested: "\<not> binop_failed (condenseAST (pre @ acc @ [NodeToken t]) False [] rest k)"
    using Open.prems by (intro Open.IH(1)) simp
  show ?case
  proof (cases "condenseAST (pre @ acc @ [NodeToken t]) False [] rest k")
    case (Inl u)
    with nested Open.hyps show ?thesis by (simp add: condenseAST_open)
  next
    case (Inr p)
    obtain nodeList rest1 where p: "p = (nodeList, rest1)" by (cases p)
    show ?thesis
    proof (cases rest1)
      case Nil
      with Inr p Open.hyps show ?thesis by (simp add: condenseAST_open)
    next
      case (Cons closing rest2)
      have call: "condenseAST (pre @ acc @ [NodeToken t]) False [] rest k =
          Inr (nodeList, closing # rest2)"
        using Inr p Cons by simp
      from condenseAST_suffix [OF call] obtain ys where ys: "rest = ys @ closing # rest2"
        by blast
      have "\<not> binop_failed
          (condenseAST pre (erased \<or> acc = []) (acc @ [group_node k nodeList]) rest2 ty)"
        using Open.prems ys by (intro Open.IH(2) [OF call]) simp
      then show ?thesis using call Open.hyps by (simp add: condenseAST_open)
    qed
  qed
next
  case (Close pre erased acc t rest ty k)
  then show ?case
    by (cases k) (simp_all add: condenseAST_close process_no_operator)
next
  case (Other pre erased acc x rest ty)
  have "\<not> binop_failed (condenseAST pre erased (acc @ [x]) rest ty)"
    using Other.prems by (intro Other.IH) simp
  then show ?case using Other.hyps by (simp add: condenseAST_other)
qed

subsection \<open>The use of an erased \<open>start\<close>\<close>

lemma opening_first_mono: "opening_first False xs \<Longrightarrow> opening_first b xs"
  by (cases xs) auto

lemma opening_first_append: "opening_first False zs \<Longrightarrow> opening_first b (ys @ zs)"
proof (induction ys arbitrary: b)
  case Nil
  then show ?case by (simp add: opening_first_mono)
next
  case (Cons y ys)
  then show ?case by simp
qed

lemma condenseAST_undefined:
  "condenseAST pre erased acc xs ty = Inl UndefinedBehaviour \<Longrightarrow>
   ty = NT_NONE \<or> (is_group_kind ty \<and> pre @ acc \<noteq> []) \<Longrightarrow>
     erased \<or> opening_first (acc = []) xs"
proof (induction pre erased acc xs ty rule: condenseAST_cases_induct)
  case (End pre erased acc ty)
  then show ?case
    by (auto simp: condenseAST_end split: if_splits sum.splits dest!: process_failure)
next
  case (Open pre erased acc t rest ty k)
  have k: "is_group_kind k" "k \<noteq> NT_NONE"
    using Open.hyps opening_kind_group group_kind_not_none by auto
  have inv: "k = NT_NONE \<or> (is_group_kind k \<and> (pre @ acc @ [NodeToken t]) @ [] \<noteq> [])"
    using k by simp
  have op: "opening_first b (NodeToken t # rest) = (b \<or> opening_first True rest)" for b
    using Open.hyps by simp
  show ?case
  proof (cases "condenseAST (pre @ acc @ [NodeToken t]) False [] rest k")
    case (Inl u)
    with Open.prems(1) Open.hyps
    have "condenseAST (pre @ acc @ [NodeToken t]) False [] rest k = Inl UndefinedBehaviour"
      by (simp add: condenseAST_open)
    from Open.IH(1) [OF this inv] show ?thesis
      unfolding op by simp
  next
    case (Inr p)
    obtain nodeList rest1 where p: "p = (nodeList, rest1)" by (cases p)
    from condenseAST_returns_closing [OF k(1), of "pre @ acc @ [NodeToken t]" "[]" False rest nodeList rest1]
      Inr p
    obtain t' rest2 where
      r1: "rest1 = NodeToken t' # rest2" and cl: "opening_kind (type t') = None"
      by auto
    have call: "condenseAST (pre @ acc @ [NodeToken t]) False [] rest k =
        Inr (nodeList, NodeToken t' # rest2)"
      using Inr p r1 by simp
    from condenseAST_suffix [OF call] obtain ys where ys: "rest = ys @ NodeToken t' # rest2"
      by blast
    have res: "condenseAST pre (erased \<or> acc = []) (acc @ [group_node k nodeList]) rest2 ty =
        Inl UndefinedBehaviour"
      using Open.prems(1) Open.hyps call by (simp add: condenseAST_open)
    have "(erased \<or> acc = []) \<or> opening_first (acc @ [group_node k nodeList] = []) rest2"
      using Open.prems(2) by (intro Open.IH(2) [OF call res]) auto
    then consider "erased \<or> acc = []" | "opening_first False rest2"
      by auto
    then show ?thesis
    proof cases
      case 1
      then show ?thesis unfolding op by auto
    next
      case 2
      with cl have "opening_first False (NodeToken t' # rest2)" by simp
      then have "opening_first True rest"
        unfolding ys by (rule opening_first_append)
      then show ?thesis unfolding op by simp
    qed
  qed
next
  case (Close pre erased acc t rest ty k)
  then show ?case
    by (auto simp: condenseAST_close split: if_splits sum.splits dest!: process_failure)
next
  case (Other pre erased acc x rest ty)
  have res: "condenseAST pre erased (acc @ [x]) rest ty = Inl UndefinedBehaviour"
    using Other.prems(1) Other.hyps by (simp add: condenseAST_other)
  have "erased \<or> opening_first (acc @ [x] = []) rest"
    using Other.prems(2) by (intro Other.IH [OF res]) auto
  moreover have "\<not> is_opening x"
    using Other.hyps by (cases x) auto
  ultimately show ?case by simp
qed

subsection \<open>The verdicts of the bracket scan\<close>

lemma raises_InvalidClosing:
  "raises (InvalidClosing k l c) u \<longleftrightarrow> u = Throw (CompilerException (INVALID_CLOSING k) l c)"
proof (cases u)
  case (Throw x)
  then show ?thesis by (cases x) auto
qed simp

lemma raises_MissingClosing:
  "raises (MissingClosing k) u \<longleftrightarrow> (\<exists>l c. u = Throw (CompilerException (MISSING_CLOSING k) l c))"
proof (cases u)
  case (Throw x)
  then show ?thesis by (cases x) auto
qed simp

lemma bracket_scan_kinds:
  "list_all is_group_kind S \<Longrightarrow>
     (case bracket_scan S xs of
        Balanced \<Rightarrow> True
      | InvalidClosing k l c \<Rightarrow> is_group_kind k
      | MissingClosing k \<Rightarrow> is_group_kind k)"
proof (induction xs arbitrary: S)
  case Nil
  then show ?case by (cases S) simp_all
next
  case (Cons x xs)
  show ?case
  proof (cases "is_bracket x")
    case False
    then show ?thesis
      using Cons by (simp add: bracket_scan_other del: bracket_scan.simps)
  next
    case True
    then obtain t where x: "x = NodeToken t" by (cases x) auto
    show ?thesis
    proof (cases "opening_kind (type t)")
      case (Some k)
      have "list_all is_group_kind (k # S)"
        using Cons.prems opening_kind_group [OF Some] by simp
      from Cons.IH [OF this] show ?thesis
        using x Some by (simp add: bracket_scan_open del: bracket_scan.simps)
    next
      case None
      with True x obtain k where k: "closing_kind (type t) = Some k" by auto
      show ?thesis
      proof (cases S)
        case Nil
        then show ?thesis
          using x None k closing_kind_group [OF k]
          by (simp add: bracket_scan_close del: bracket_scan.simps)
      next
        case (Cons k' ks)
        with Cons.prems have "list_all is_group_kind ks" by simp
        from Cons.IH [OF this] show ?thesis
          using x None k closing_kind_group [OF k] Cons
          by (simp add: bracket_scan_close del: bracket_scan.simps)
      qed
    qed
  qed
qed

subsection \<open>The statement\<close>

text \<open>
  The source text \<open>(1)\<close>, whose brackets are balanced: the opening bracket is the first
  node of the list, it is erased with \<open>start\<close> pointing at it, and the end of the list
  splices from \<open>start\<close>.
\<close>

lemma condenseAST_paren_1:
  "(case tokenize real_ops (\<lambda>i. NUL) ''(1)'' of
      Inl u \<Rightarrow> Inl u
    | Inr tokens \<Rightarrow> constructAST tokens) = Inl UndefinedBehaviour"
  by (simp add: lexer_defs c_string_from_unfold ast_defs)

text \<open>
  C2. For every node sequence, bracket grouping at top level is balanced-or-error.
  The groups are completed from the left, a bracketed group at its closing bracket
  and the whole sequence at the end of the input, and a completed group is resolved
  at once. When the resolution of a completed group fails, the failure of the first
  such group is the result: the binop error of a precedence pass, or the undefined
  use of the erased \<open>start\<close>. When none fails, the result follows the bracket scan of the
  sequence:
  \<^item> balanced brackets: grouping returns, and the whole input is consumed;
  \<^item> a closing bracket that does not close the innermost open kind (or meets no open
    kind): \<open>InvalidClosing\<close> of the kind of that closing bracket, at its position;
  \<^item> end of input with a kind open: \<open>MissingClosing\<close> of the innermost open kind, at
    the position of the last node of the input when that node is not a closing
    bracket.

  The use of the erased \<open>start\<close> needs a group that begins with an opening bracket, and
  a binop error needs an operator token.
\<close>

theorem bracket_grouping:
  "(case group_failure [] False [] nodes of
      Some u \<Rightarrow>
        (u = UndefinedBehaviour \<or> is_binop_failure u)
        \<and> condenseAST [] False [] nodes NT_NONE = Inl u
    | None \<Rightarrow>
        (case bracket_scan [] nodes of
           Balanced \<Rightarrow>
             (\<exists>outputList. condenseAST [] False [] nodes NT_NONE = Inr (outputList, []))
         | InvalidClosing k l c \<Rightarrow>
             is_group_kind k
             \<and> condenseAST [] False [] nodes NT_NONE = throw (INVALID_CLOSING k) l c
         | MissingClosing k \<Rightarrow>
             is_group_kind k
             \<and> (\<exists>l c. condenseAST [] False [] nodes NT_NONE = throw (MISSING_CLOSING k) l c
                       \<and> (is_closing (last nodes)
                            \<or> (l = Node_line (last nodes) \<and> c = Node_column (last nodes))))))
   \<and> (condenseAST [] False [] nodes NT_NONE = Inl UndefinedBehaviour \<longrightarrow>
        opening_first True nodes)
   \<and> (operator_free nodes \<longrightarrow> \<not> binop_failed (condenseAST [] False [] nodes NT_NONE))"
proof (intro conjI)
  let ?r = "condenseAST [] False [] nodes NT_NONE"
  have ag: "agrees NT_NONE False [] nodes ?r"
    by (intro condenseAST_agrees) simp
  have kinds: "case bracket_scan [] nodes of
        Balanced \<Rightarrow> True
      | InvalidClosing k l c \<Rightarrow> is_group_kind k
      | MissingClosing k \<Rightarrow> is_group_kind k"
    by (intro bracket_scan_kinds) simp
  show "case group_failure [] False [] nodes of
      Some u \<Rightarrow> (u = UndefinedBehaviour \<or> is_binop_failure u) \<and> ?r = Inl u
    | None \<Rightarrow>
        (case bracket_scan [] nodes of
           Balanced \<Rightarrow> (\<exists>outputList. ?r = Inr (outputList, []))
         | InvalidClosing k l c \<Rightarrow> is_group_kind k \<and> ?r = throw (INVALID_CLOSING k) l c
         | MissingClosing k \<Rightarrow>
             is_group_kind k
             \<and> (\<exists>l c. ?r = throw (MISSING_CLOSING k) l c
                       \<and> (is_closing (last nodes)
                            \<or> (l = Node_line (last nodes) \<and> c = Node_column (last nodes)))))"
  proof (cases "group_failure [] False [] nodes")
    case (Some u)
    have "?r = Inl u"
    proof (cases ?r)
      case (Inr p)
      with ag Some show ?thesis by (auto simp: agrees_def)
    next
      case (Inl u')
      with ag Some show ?thesis by (auto simp: agrees_def open_groups_def)
    qed
    with Some group_failure_kinds [OF Some] show ?thesis by simp
  next
    case None
    show ?thesis
    proof (cases ?r)
      case (Inr p)
      with ag None show ?thesis by (auto simp: agrees_def)
    next
      case (Inl u)
      with ag None have ra: "raises (bracket_scan [] nodes) u"
        by (auto simp: agrees_def open_stack_def open_groups_def)
      show ?thesis
      proof (cases "bracket_scan [] nodes")
        case Balanced
        with ra show ?thesis by simp
      next
        case (InvalidClosing k l c)
        with ra kinds Inl None show ?thesis
          by (simp add: raises_InvalidClosing)
      next
        case (MissingClosing k)
        with kinds have k: "is_group_kind k" by simp
        from ra MissingClosing obtain l c where
          u: "u = Throw (CompilerException (MISSING_CLOSING k) l c)"
          by (auto simp: raises_MissingClosing)
        have "is_closing (last nodes)
              \<or> (l = Node_line (last nodes) \<and> c = Node_column (last nodes))"
        proof (cases "is_closing (last nodes)")
          case True
          then show ?thesis by simp
        next
          case nc: False
          have "l = Node_line (last ([] @ [] @ nodes)) \<and> c = Node_column (last ([] @ [] @ nodes))"
            using Inl u k nc
            by (intro condenseAST_missing_position [of "[]" False "[]" nodes NT_NONE "MISSING_CLOSING k"])
               (simp_all add: is_missing_MISSING_CLOSING)
          then show ?thesis by simp
        qed
        with Inl u k MissingClosing None show ?thesis by auto
      qed
    qed
  qed
  show "?r = Inl UndefinedBehaviour \<longrightarrow> opening_first True nodes"
    using condenseAST_undefined [of "[]" False "[]" nodes NT_NONE] by simp
  show "operator_free nodes \<longrightarrow> \<not> binop_failed ?r"
    using condenseAST_no_operator [of "[]" nodes "[]" False NT_NONE]
    by (simp add: operator_free_def)
qed

text \<open>
  The theorem at three sequences. \<open>1+(2)+)\<close>: the group \<open>(2)\<close> is completed and resolved
  without failure, and the closing bracket that follows meets no open kind; the
  dangling \<open>+\<close> before it is never looked at. \<open>1[2)\<close>: no operator, and a closing
  parenthesis with a square bracket open. \<open>(1)\<close>: the sequence begins with an opening
  bracket and its resolution is undefined.
\<close>

theorem bracket_grouping_witness:
  "group_failure [] False []
       [NodeExpr (ExprInt 1 0 1 :: real Expr), NodeToken (Token T_PLUS 0 2),
        NodeToken (Token T_LEFT_PAREN 0 3), NodeExpr (ExprInt 2 0 4),
        NodeToken (Token T_RIGHT_PAREN 0 5), NodeToken (Token T_PLUS 0 6),
        NodeToken (Token T_RIGHT_PAREN 0 7)] = None
   \<and> bracket_scan []
       [NodeExpr (ExprInt 1 0 1 :: real Expr), NodeToken (Token T_PLUS 0 2),
        NodeToken (Token T_LEFT_PAREN 0 3), NodeExpr (ExprInt 2 0 4),
        NodeToken (Token T_RIGHT_PAREN 0 5), NodeToken (Token T_PLUS 0 6),
        NodeToken (Token T_RIGHT_PAREN 0 7)] = InvalidClosing NT_PAREN_GROUP 0 7
   \<and> condenseAST [] False []
       [NodeExpr (ExprInt 1 0 1 :: real Expr), NodeToken (Token T_PLUS 0 2),
        NodeToken (Token T_LEFT_PAREN 0 3), NodeExpr (ExprInt 2 0 4),
        NodeToken (Token T_RIGHT_PAREN 0 5), NodeToken (Token T_PLUS 0 6),
        NodeToken (Token T_RIGHT_PAREN 0 7)] NT_NONE = throw INVALID_CLOSING_PAREN 0 7
   \<and> operator_free
       [NodeExpr (ExprInt 1 0 1 :: real Expr), NodeToken (Token T_LEFT_SQUARE 0 2),
        NodeExpr (ExprInt 2 0 3), NodeToken (Token T_RIGHT_PAREN 0 4)]
   \<and> \<not> binop_failed (condenseAST [] False []
       [NodeExpr (ExprInt 1 0 1 :: real Expr), NodeToken (Token T_LEFT_SQUARE 0 2),
        NodeExpr (ExprInt 2 0 3), NodeToken (Token T_RIGHT_PAREN 0 4)] NT_NONE)
   \<and> condenseAST [] False []
       [NodeExpr (ExprInt 1 0 1 :: real Expr), NodeToken (Token T_LEFT_SQUARE 0 2),
        NodeExpr (ExprInt 2 0 3), NodeToken (Token T_RIGHT_PAREN 0 4)] NT_NONE =
     throw INVALID_CLOSING_PAREN 0 4
   \<and> condenseAST [] False []
       [NodeToken (Token T_LEFT_PAREN 0 1), NodeExpr (ExprInt 1 0 2 :: real Expr),
        NodeToken (Token T_RIGHT_PAREN 0 3)] NT_NONE = Inl UndefinedBehaviour
   \<and> opening_first True
       [NodeToken (Token T_LEFT_PAREN 0 1), NodeExpr (ExprInt 1 0 2 :: real Expr),
        NodeToken (Token T_RIGHT_PAREN 0 3)]"
proof -
  let ?A = "[NodeExpr (ExprInt 1 0 1 :: real Expr), NodeToken (Token T_PLUS 0 2),
        NodeToken (Token T_LEFT_PAREN 0 3), NodeExpr (ExprInt 2 0 4),
        NodeToken (Token T_RIGHT_PAREN 0 5), NodeToken (Token T_PLUS 0 6),
        NodeToken (Token T_RIGHT_PAREN 0 7)]"
  let ?B = "[NodeExpr (ExprInt 1 0 1 :: real Expr), NodeToken (Token T_LEFT_SQUARE 0 2),
        NodeExpr (ExprInt 2 0 3), NodeToken (Token T_RIGHT_PAREN 0 4)]"
  let ?C = "[NodeToken (Token T_LEFT_PAREN 0 1), NodeExpr (ExprInt 1 0 2 :: real Expr),
        NodeToken (Token T_RIGHT_PAREN 0 3)]"
  have a1: "group_failure [] False [] ?A = None"
    by (simp add: opening_kind_def closing_kind_def Token_def resolve_def process_def
                  pass1_op_def pass2_op_def)
  have a2: "bracket_scan [] ?A = InvalidClosing NT_PAREN_GROUP 0 7"
    by (simp add: opening_kind_def closing_kind_def Token_def)
  have a3: "condenseAST [] False [] ?A NT_NONE = throw INVALID_CLOSING_PAREN 0 7"
    using bracket_grouping [of ?A] unfolding a1 a2 by simp
  have b1: "group_failure [] False [] ?B = None"
    by (simp add: opening_kind_def closing_kind_def Token_def resolve_def process_def
                  pass1_op_def pass2_op_def)
  have b2: "bracket_scan [] ?B = InvalidClosing NT_PAREN_GROUP 0 4"
    by (simp add: opening_kind_def closing_kind_def Token_def)
  have b3: "operator_free ?B"
    by (simp add: operator_free_def pass1_op_def pass2_op_def Token_def)
  have b4: "condenseAST [] False [] ?B NT_NONE = throw INVALID_CLOSING_PAREN 0 4"
    using bracket_grouping [of ?B] unfolding b1 b2 by simp
  have b5: "\<not> binop_failed (condenseAST [] False [] ?B NT_NONE)"
    using bracket_grouping [of ?B] b3 by blast
  have c1: "condenseAST [] False [] ?C NT_NONE = Inl UndefinedBehaviour"
    by (simp add: ast_defs Token_def)
  have c2: "opening_first True ?C"
    using bracket_grouping [of ?C] c1 by blast
  from a1 a2 a3 b3 b5 b4 c1 c2 show ?thesis
    by (simp only: simp_thms)
qed

text \<open>
  The claim as stated names the kind being expected. On the source text \<open>[)\<close> a square
  bracket is open and the error is \<open>InvalidClosingParen\<close>, the kind of the closing
  bracket met, not \<open>InvalidClosingSquare\<close>.
\<close>

theorem invalid_closing_counterexample:
  "(case tokenize real_ops (\<lambda>i. NUL) ''[)'' of
      Inl u \<Rightarrow> Inl u
    | Inr tokens \<Rightarrow> constructAST tokens) = throw INVALID_CLOSING_PAREN 0 2
   \<and> (case tokenize real_ops (\<lambda>i. NUL) ''[)'' of
      Inl u \<Rightarrow> Inl u
    | Inr tokens \<Rightarrow> constructAST tokens) \<noteq> throw INVALID_CLOSING_SQUARE 0 2"
  by (simp add: lexer_defs c_string_from_unfold ast_defs)

section \<open>Binop type resolution\<close>

text \<open>
  C3. Resolving a float operand with an int operand gives the result type float in
  either operand order, and in either order the int operand, and only it, is wrapped
  in a cast to float.
\<close>

theorem resolve_binop_float_int:
  "evalType x = ET_FLOAT \<Longrightarrow> evalType y = ET_INT \<Longrightarrow>
     resolve_binop opType l c x y = Inr (ExprBinop x (ExprCast y ET_FLOAT) opType ET_FLOAT l c)
     \<and> resolve_binop opType l c y x = Inr (ExprBinop (ExprCast y ET_FLOAT) x opType ET_FLOAT l c)"
  by (simp add: ast_defs)

theorem resolve_binop_float_int_witness:
  "evalType (ExprFloat (7 / 2) 0 3 :: real Expr) = ET_FLOAT
   \<and> evalType (ExprInt 2 0 5 :: real Expr) = ET_INT
   \<and> resolve_binop MULT 0 4 (ExprFloat (7 / 2) 0 3 :: real Expr) (ExprInt 2 0 5) =
       Inr (ExprBinop (ExprFloat (7 / 2) 0 3) (ExprCast (ExprInt 2 0 5) ET_FLOAT) MULT ET_FLOAT 0 4)
   \<and> resolve_binop MULT 0 4 (ExprInt 2 0 5) (ExprFloat (7 / 2) 0 3 :: real Expr) =
       Inr (ExprBinop (ExprCast (ExprInt 2 0 5) ET_FLOAT) (ExprFloat (7 / 2) 0 3) MULT ET_FLOAT 0 4)"
  using resolve_binop_float_int
    [of "ExprFloat (7 / 2) 0 3 :: real Expr" "ExprInt 2 0 5" MULT 0 4]
  by simp

text \<open>
  C4. Two operands of type bool do match an entry of the table: the last one, whose
  result type is int and whose operand types are both bool. The resolver raises
  nothing; the result type is int and both operands are wrapped in a cast to int.
\<close>

theorem resolve_binop_bool_bool:
  "evalType x = ET_BOOL \<Longrightarrow> evalType y = ET_BOOL \<Longrightarrow>
     resolve_binop opType l c x y =
       Inr (ExprBinop (ExprCast x ET_INT) (ExprCast y ET_INT) opType ET_INT l c)"
  by (simp add: ast_defs)

theorem resolve_binop_bool_bool_witness:
  "evalType (ExprBool True 0 4 :: real Expr) = ET_BOOL
   \<and> evalType (ExprBool False 0 10 :: real Expr) = ET_BOOL
   \<and> resolve_binop ADD 0 5 (ExprBool True 0 4 :: real Expr) (ExprBool False 0 10) =
       Inr (ExprBinop (ExprCast (ExprBool True 0 4) ET_INT) (ExprCast (ExprBool False 0 10) ET_INT)
              ADD ET_INT 0 5)"
  using resolve_binop_bool_bool [of "ExprBool True 0 4 :: real Expr" "ExprBool False 0 10" ADD 0 5]
  by simp

text \<open>
  The claim as stated fails on the tokens of \<open>true + false\<close>: the builder returns a
  binop of type int and does not raise \<open>BinopIllegalPattern\<close>.
\<close>

theorem bool_bool_counterexample:
  "constructAST [Token T_TRUE 0 4, Token T_PLUS 0 5, Token T_FALSE 0 10 :: real NoDestructToken] =
     Inr [NodeExpr (ExprBinop (ExprCast (ExprBool True 0 4) ET_INT)
                      (ExprCast (ExprBool False 0 10) ET_INT) ADD ET_INT 0 5)]
   \<and> resolve_binop ADD 0 5 (ExprBool True 0 4 :: real Expr) (ExprBool False 0 10) \<noteq>
       throw BINOP_ILLEGAL_PATTERN 0 5"
  by (simp add: ast_defs Token_def)

text \<open>The resolver raises \<open>BinopIllegalPattern\<close> exactly for an operand of unknown type.\<close>

lemma resolve_binop_illegal_iff:
  "resolve_binop opType l c x y = throw BINOP_ILLEGAL_PATTERN l c
     \<longleftrightarrow> evalType x = ET_UNKNOWN \<or> evalType y = ET_UNKNOWN"
  by (cases "evalType x"; cases "evalType y") (simp_all add: ast_defs)

section \<open>Bytecode emission\<close>

text \<open>
  C8. Compiling the source \<open>42\<close> on a machine with at least one word register writes
  exactly six bytes: the opcode \<open>MOV_W\<close>, the id of word register 0 (the one register
  acquired, in the emitter's copy of the pool), and the four bytes of the integer 42;
  the byte counter, which starts at 0, ends at 6.
\<close>

theorem compile_42:
  "0 < NUM_WORD_REGISTERS K \<Longrightarrow>
     compile' F K garbage ''42'' outputFileIn =
       Inr \<lparr>reg = RegManager_new K, rid1 = word_of_int (W0 K),
            written =
              \<lparr>outputFile =
                 outputFileIn @ [MOV_W K, word_of_int (W0 K)] @ int_t_bytes (order K) 42,
               byteCounter = 6\<rparr>\<rparr>
     \<and> length (int_t_bytes (order K) 42) = 4
     \<and> int_t_bytes LittleEndian 42 = [42, 0, 0, 0]
     \<and> makeExprBytecode K (ExprInt 42 0 2 :: 'f Expr) (RegManager_new K)
           \<lparr>outputFile = outputFileIn, byteCounter = n\<rparr> =
         Inr (word_of_int (W0 K),
              (RegManager_new K)\<lparr>wordsActive := (wordsActive (RegManager_new K))[0 := True]\<rparr>,
              \<lparr>outputFile =
                 outputFileIn @ [MOV_W K, word_of_int (W0 K)] @ int_t_bytes (order K) 42,
               byteCounter = n + 6\<rparr>)"
  apply (cases "NUM_WORD_REGISTERS K")
   apply simp
  apply (simp add: lexer_defs c_string_from_unfold ast_defs emit_defs int_t_bytes_def
              split: byte_order.splits)
  done

theorem compile_42_witness:
  "0 < NUM_WORD_REGISTERS example_target
   \<and> compile' real_ops example_target (\<lambda>i. NUL) ''42'' [] =
       Inr \<lparr>reg = RegManager_new example_target, rid1 = 0,
            written = \<lparr>outputFile = [1, 0, 42, 0, 0, 0], byteCounter = 6\<rparr>\<rparr>"
proof -
  have h: "0 < NUM_WORD_REGISTERS example_target"
    by (simp add: example_target_def)
  from compile_42 [OF h, of real_ops "\<lambda>i. NUL" "[]" 0] h show ?thesis
    by (simp add: example_target_def)
qed

text \<open>
  C10. For a float literal, a bool literal, a char literal, a cast and a binary
  operation, \<open>makeExprBytecode\<close> returns register id 0 and leaves the output stream,
  the byte counter and its register pool as they were.
\<close>

theorem makeExprBytecode_emits_nothing:
  "Expr_type expr \<in> {NT_FLOAT, NT_BOOL, NT_CHAR, NT_CAST, NT_BINOP} \<Longrightarrow>
     makeExprBytecode K expr regIn e = Inr (0, regIn, e)"
  by (cases expr) simp_all

theorem makeExprBytecode_emits_nothing_witness:
  "Expr_type (ExprBinop (ExprInt 2 0 1) (ExprInt 3 0 3) ADD ET_INT 0 2 :: real Expr)
     \<in> {NT_FLOAT, NT_BOOL, NT_CHAR, NT_CAST, NT_BINOP}
   \<and> makeExprBytecode example_target
         (ExprBinop (ExprInt 2 0 1) (ExprInt 3 0 3) ADD ET_INT 0 2 :: real Expr)
         (RegManager_new example_target) \<lparr>outputFile = [], byteCounter = 0\<rparr>
       = Inr (0, RegManager_new example_target, \<lparr>outputFile = [], byteCounter = 0\<rparr>)"
  using makeExprBytecode_emits_nothing
    [of "ExprBinop (ExprInt 2 0 1) (ExprInt 3 0 3) ADD ET_INT 0 2 :: real Expr" example_target
        "RegManager_new example_target" "\<lparr>outputFile = [], byteCounter = 0\<rparr>"]
  by simp

text \<open>The register \<open>getWord\<close> hands out was free, and is occupied afterwards.\<close>

lemma first_inactive_Some:
  "first_inactive xs j = Some i \<Longrightarrow> j \<le> i \<and> i - j < length xs \<and> \<not> xs ! (i - j)"
proof (induction xs arbitrary: j)
  case Nil
  then show ?case by simp
next
  case (Cons a xs)
  show ?case
  proof (cases a)
    case True
    with Cons.prems have "first_inactive xs (j + 1) = Some i" by simp
    from Cons.IH [OF this] have "j + 1 \<le> i" "i - (j + 1) < length xs" "\<not> xs ! (i - (j + 1))"
      by auto
    moreover from \<open>j + 1 \<le> i\<close> have "i - j = Suc (i - (j + 1))" by simp
    ultimately show ?thesis by simp
  next
    case False
    with Cons.prems show ?thesis by simp
  qed
qed

lemma getWord_occupies:
  "getWord K r = Inr (rid, r1) \<Longrightarrow> wordsActive r1 \<noteq> wordsActive r"
proof -
  assume g: "getWord K r = Inr (rid, r1)"
  then obtain i where i: "first_inactive (wordsActive r) 0 = Some i"
    and r1: "r1 = r\<lparr>wordsActive := (wordsActive r)[i := True]\<rparr>"
    by (auto simp: getWord_def split: option.splits)
  from first_inactive_Some [OF i] have "i < length (wordsActive r)" "\<not> wordsActive r ! i"
    by auto
  then have "(wordsActive r)[i := True] ! i \<noteq> wordsActive r ! i" by simp
  then have "(wordsActive r)[i := True] \<noteq> wordsActive r" by metis
  with r1 show ?thesis by simp
qed

text \<open>
  C9. \<open>makeExprBytecode\<close> works on its own copy of the register pool. Whenever
  \<open>makeBytecode\<close> returns, the pool it holds is the one it constructed: every word
  register and every byte register is free. That holds also after an integer
  literal, for which the callee's copy has a word register occupied.
\<close>

theorem makeBytecode_reg_unchanged:
  "makeBytecode K list outputFileIn = Inr m \<Longrightarrow>
     reg m = RegManager_new K
     \<and> wordsActive (reg m) = replicate (NUM_WORD_REGISTERS K) False
     \<and> bytesActive (reg m) = replicate (NUM_BYTE_REGISTERS K) False
     \<and> (\<forall>int_v l c ns. list = NodeExpr (ExprInt int_v l c) # ns \<longrightarrow>
          (\<exists>reg_copy e1.
              makeExprBytecode K (ExprInt int_v l c :: 'f Expr) (RegManager_new K)
                \<lparr>outputFile = outputFileIn, byteCounter = 0\<rparr> = Inr (rid1 m, reg_copy, e1)
              \<and> written m = e1
              \<and> wordsActive reg_copy \<noteq> wordsActive (reg m)))"
  by (auto simp: makeBytecode_def RegManager_new_def Let_def
           split: list.splits Node.splits sum.splits dest: getWord_occupies)

text \<open>
  For the literal 42 the callee's copy has word register 0 occupied when it returns,
  and the caller's pool is free all the same.
\<close>

theorem makeBytecode_reg_unchanged_witness:
  "makeBytecode example_target [NodeExpr (ExprInt 42 0 2 :: real Expr)] [] =
     Inr \<lparr>reg = RegManager_new example_target, rid1 = 0,
          written = \<lparr>outputFile = [1, 0, 42, 0, 0, 0], byteCounter = 6\<rparr>\<rparr>
   \<and> wordsActive (RegManager_new example_target) = replicate 16 False
   \<and> bytesActive (RegManager_new example_target) = replicate 16 False
   \<and> makeExprBytecode example_target (ExprInt 42 0 2 :: real Expr)
         (RegManager_new example_target) \<lparr>outputFile = [], byteCounter = 0\<rparr> =
       Inr (0, \<lparr>wordsActive = True # replicate 15 False, bytesActive = replicate 16 False\<rparr>,
            \<lparr>outputFile = [1, 0, 42, 0, 0, 0], byteCounter = 6\<rparr>)"
proof -
  have h: "makeBytecode example_target [NodeExpr (ExprInt 42 0 2 :: real Expr)] [] =
     Inr \<lparr>reg = RegManager_new example_target, rid1 = 0,
          written = \<lparr>outputFile = [1, 0, 42, 0, 0, 0], byteCounter = 6\<rparr>\<rparr>"
    by (simp add: emit_defs example_target_def int_t_bytes_def replicate_16)
  from makeBytecode_reg_unchanged [OF h] h show ?thesis
    by (simp add: emit_defs example_target_def int_t_bytes_def replicate_16)
qed

end
